theory Spec2Isabelle
  imports Main "HOL-Library.Char_ord" "HOL-Library.List_Lexorder"
begin

unbundle bit_operations_syntax

section \<open>Python values\<close>

text \<open>
  A Document is a Python \<open>dict\<close> with string keys whose values are \<open>None\<close>, booleans,
  integers, strings, lists or nested dicts. A dict keeps its keys in insertion order, so it
  is an association list; Python dicts never hold a key twice, which is the predicate
  \<open>unique_keys\<close> below. Strings are lists of characters with code points below 256, compared
  lexicographically by code point as Python compares \<open>str\<close>. Floats are not modelled.
\<close>

datatype pyval =
    PNone
  | PBool bool
  | PInt int
  | PStr string
  | PList "pyval list"
  | PDict "(string \<times> pyval) list"

type_synonym pydict = "(string \<times> pyval) list"

datatype error = KeyError | AttributeError | NotImplementedError

text \<open>\<open>d[k] = v\<close>: an existing key keeps its position, a new key goes to the end.\<close>

fun dict_set :: "(string \<times> 'v) list \<Rightarrow> string \<Rightarrow> 'v \<Rightarrow> (string \<times> 'v) list" where
  "dict_set [] k v = [(k, v)]"
| "dict_set ((k', v') # d) k v =
     (if k' = k then (k, v) # d else (k', v') # dict_set d k v)"

text \<open>\<open>del d[k]\<close>: raises \<open>KeyError\<close> when the key is missing.\<close>

definition dict_del :: "pydict \<Rightarrow> string \<Rightarrow> error + pydict" where
  "dict_del d k =
     (if k \<in> set (map fst d) then Inr (filter (\<lambda>kv. fst kv \<noteq> k) d) else Inl KeyError)"

text \<open>\<open>d[k]\<close>: raises \<open>KeyError\<close> when the key is missing.\<close>

definition dict_getitem :: "pydict \<Rightarrow> string \<Rightarrow> error + pyval" where
  "dict_getitem d k = (case map_of d k of None \<Rightarrow> Inl KeyError | Some v \<Rightarrow> Inr v)"

text \<open>\<open>d.get(k, default)\<close> on a dict.\<close>

definition dict_get :: "pydict \<Rightarrow> string \<Rightarrow> pyval \<Rightarrow> pyval" where
  "dict_get d k dflt = (case map_of d k of None \<Rightarrow> dflt | Some v \<Rightarrow> v)"

text \<open>
  \<open>x.get(k, default)\<close> on any value: only dicts have the method, every other value raises
  \<open>AttributeError\<close>.
\<close>

fun py_get :: "pyval \<Rightarrow> string \<Rightarrow> pyval \<Rightarrow> error + pyval" where
  "py_get (PDict d) k dflt = Inr (dict_get d k dflt)"
| "py_get _ k dflt = Inl AttributeError"

text \<open>Keys are unique in every dict of the value, at any depth.\<close>

fun unique_keys :: "pyval \<Rightarrow> bool" where
  "unique_keys (PDict d) = (distinct (map fst d) \<and> (\<forall>kv \<in> set d. unique_keys (snd kv)))"
| "unique_keys (PList xs) = (\<forall>x \<in> set xs. unique_keys x)"
| "unique_keys _ = True"

section \<open>sorted_dict\<close>

text \<open>
  \<open>sorted(unsorted_dict.items())\<close> orders the \<open>(key, value)\<close> tuples; the keys of a dict
  differ pairwise, so the comparison of two tuples is decided by their keys and the values
  are never compared. The loop inserts the items into a new \<open>OrderedDict\<close>, after
  replacing a value that is a dict by its own \<open>sorted_dict\<close>. Lists are not entered.
\<close>

function sorted_dict :: "pydict \<Rightarrow> pydict" where
  "sorted_dict unsorted_dict =
     fold (\<lambda>(k, v) result.
             dict_set result k (case v of PDict d \<Rightarrow> PDict (sorted_dict d) | _ \<Rightarrow> v))
          (sort_key fst unsorted_dict) []"
  by pat_completeness auto
termination
proof (relation "measure (size_list (size_prod (\<lambda>_. 0) size))")
  show "wf (measure (size_list (size_prod (\<lambda>_. 0) size)))"
    by simp
next
  fix unsorted_dict :: pydict and kv result k v d
  assume "kv \<in> set (sort_key fst unsorted_dict)" and "(k, v) = kv" and "v = PDict d"
  then have mem: "(k, PDict d) \<in> set unsorted_dict"
    by simp
  have "(k, PDict d) \<in> set xs \<Longrightarrow>
        size_list (size_prod (\<lambda>_. 0) size) d < size_list (size_prod (\<lambda>_. 0) size) xs"
    for xs :: pydict
    by (induction xs) auto
  from this [OF mem]
  show "(d, unsorted_dict) \<in> measure (size_list (size_prod (\<lambda>_. 0) size))"
    by simp
qed

declare sorted_dict.simps [simp del]

section \<open>json.dumps\<close>

text \<open>
  \<open>json.dumps(obj, separators=(',', ':'))\<close> of the standard library, with its default
  \<open>ensure_ascii=True\<close>: a quotation mark, a backslash and every character outside the
  range from space to tilde are escaped, so the output is ASCII.
\<close>

definition hexdigit :: "nat \<Rightarrow> char" where
  "hexdigit n = ''0123456789abcdef'' ! (n mod 16)"

definition escape_char :: "char \<Rightarrow> string" where
  "escape_char c =
     (if c = CHR 0x22 then [CHR 0x5C, CHR 0x22]
      else if c = CHR 0x5C then [CHR 0x5C, CHR 0x5C]
      else if c = CHR 0x08 then [CHR 0x5C, CHR ''b'']
      else if c = CHR 0x0C then [CHR 0x5C, CHR ''f'']
      else if c = CHR 0x0A then [CHR 0x5C, CHR ''n'']
      else if c = CHR 0x0D then [CHR 0x5C, CHR ''r'']
      else if c = CHR 0x09 then [CHR 0x5C, CHR ''t'']
      else if (of_char c :: nat) < 32 \<or> 126 < (of_char c :: nat)
        then [CHR 0x5C, CHR ''u'', CHR ''0'', CHR ''0'',
              hexdigit (of_char c div 16), hexdigit (of_char c)]
      else [c])"

definition dumps_str :: "string \<Rightarrow> string" where
  "dumps_str s = [CHR 0x22] @ concat (map escape_char s) @ [CHR 0x22]"

function str_nat :: "nat \<Rightarrow> string" where
  "str_nat n = (if n < 10 then [hexdigit n] else str_nat (n div 10) @ [hexdigit (n mod 10)])"
  by pat_completeness auto
termination
  by (relation "measure id") auto

declare str_nat.simps [simp del]

definition str_int :: "int \<Rightarrow> string" where
  "str_int i = (if i < 0 then CHR ''-'' # str_nat (nat (- i)) else str_nat (nat i))"

fun join :: "string \<Rightarrow> string list \<Rightarrow> string" where
  "join sep [] = []"
| "join sep [x] = x"
| "join sep (x # y # ys) = x @ sep @ join sep (y # ys)"

fun dumps :: "pyval \<Rightarrow> string" where
  "dumps PNone = ''null''"
| "dumps (PBool b) = (if b then ''true'' else ''false'')"
| "dumps (PInt i) = str_int i"
| "dumps (PStr s) = dumps_str s"
| "dumps (PList xs) = ''['' @ join '','' (map dumps xs) @ '']''"
| "dumps (PDict d) =
     ''{'' @ join '','' (map (\<lambda>kv. dumps_str (fst kv) @ '':'' @ dumps (snd kv)) d) @ ''}''"

text \<open>
  \<open>str.encode('utf-8')\<close>: a code point below 128 is one byte, one from 128 to 255 is two.
\<close>

definition utf8 :: "string \<Rightarrow> nat list" where
  "utf8 s = concat (map (\<lambda>c. if (of_char c :: nat) < 128 then [of_char c]
                              else [192 + of_char c div 64, 128 + of_char c mod 64]) s)"

section \<open>hashlib.sha256\<close>

text \<open>
  SHA-256 of the standard library (FIPS 180-4), on 32-bit words kept as naturals below
  \<open>2 ^ 32\<close> with the wrap-around written out.
\<close>

definition add32 :: "nat \<Rightarrow> nat \<Rightarrow> nat" where
  "add32 a b = (a + b) mod 4294967296"

definition rotr :: "nat \<Rightarrow> nat \<Rightarrow> nat" where
  "rotr n x = x div 2 ^ n + (x mod 2 ^ n) * 2 ^ (32 - n)"

definition shr :: "nat \<Rightarrow> nat \<Rightarrow> nat" where
  "shr n x = x div 2 ^ n"

definition not32 :: "nat \<Rightarrow> nat" where
  "not32 x = x XOR 4294967295"

definition ch :: "nat \<Rightarrow> nat \<Rightarrow> nat \<Rightarrow> nat" where
  "ch x y z = (x AND y) XOR (not32 x AND z)"

definition maj :: "nat \<Rightarrow> nat \<Rightarrow> nat \<Rightarrow> nat" where
  "maj x y z = (x AND y) XOR (x AND z) XOR (y AND z)"

definition bsig0 :: "nat \<Rightarrow> nat" where
  "bsig0 x = rotr 2 x XOR rotr 13 x XOR rotr 22 x"

definition bsig1 :: "nat \<Rightarrow> nat" where
  "bsig1 x = rotr 6 x XOR rotr 11 x XOR rotr 25 x"

definition ssig0 :: "nat \<Rightarrow> nat" where
  "ssig0 x = rotr 7 x XOR rotr 18 x XOR shr 3 x"

definition ssig1 :: "nat \<Rightarrow> nat" where
  "ssig1 x = rotr 17 x XOR rotr 19 x XOR shr 10 x"

text \<open>
  The round constants: the first 32 bits of the fractional parts of the cube roots of the
  first 64 primes. The initial state: the same of the square roots of the first 8 primes.
\<close>

definition K256 :: "nat list" where
  "K256 =
    [1116352408, 1899447441, 3049323471, 3921009573, 961987163, 1508970993,
     2453635748, 2870763221, 3624381080, 310598401, 607225278, 1426881987,
     1925078388, 2162078206, 2614888103, 3248222580, 3835390401, 4022224774,
     264347078, 604807628, 770255983, 1249150122, 1555081692, 1996064986,
     2554220882, 2821834349, 2952996808, 3210313671, 3336571891, 3584528711,
     113926993, 338241895, 666307205, 773529912, 1294757372, 1396182291,
     1695183700, 1986661051, 2177026350, 2456956037, 2730485921, 2820302411,
     3259730800, 3345764771, 3516065817, 3600352804, 4094571909, 275423344,
     430227734, 506948616, 659060556, 883997877, 958139571, 1322822218,
     1537002063, 1747873779, 1955562222, 2024104815, 2227730452, 2361852424,
     2428436474, 2756734187, 3204031479, 3329325298]"

definition H256 :: "nat list" where
  "H256 = [1779033703, 3144134277, 1013904242, 2773480762,
           1359893119, 2600822924, 528734635, 1541459225]"

text \<open>The message, a byte \<open>0x80\<close>, zeros, and the bit length as eight bytes.\<close>

definition pad :: "nat list \<Rightarrow> nat list" where
  "pad m = m @ [128] @ replicate ((119 - length m mod 64) mod 64) 0
             @ map (\<lambda>i. (8 * length m) div 256 ^ i mod 256) [7, 6, 5, 4, 3, 2, 1, 0]"

fun be_words :: "nat list \<Rightarrow> nat list" where
  "be_words (a # b # c # d # bs) = (((a * 256 + b) * 256 + c) * 256 + d) # be_words bs"
| "be_words _ = []"

text \<open>The message schedule, newest word first: the head of the list is \<open>W[t-1]\<close>.\<close>

fun schedule :: "nat \<Rightarrow> nat list \<Rightarrow> nat list" where
  "schedule 0 ws = ws"
| "schedule (Suc n) ws =
     schedule n (add32 (add32 (add32 (ssig1 (ws ! 1)) (ws ! 6)) (ssig0 (ws ! 14))) (ws ! 15) # ws)"

definition temp1 :: "nat \<Rightarrow> nat \<Rightarrow> nat \<Rightarrow> nat \<Rightarrow> nat \<Rightarrow> nat \<Rightarrow> nat" where
  "temp1 h e f g k w = add32 (add32 (add32 (add32 h (bsig1 e)) (ch e f g)) k) w"

definition temp2 :: "nat \<Rightarrow> nat \<Rightarrow> nat \<Rightarrow> nat" where
  "temp2 a b c = add32 (bsig0 a) (maj a b c)"

fun rotate_in :: "nat \<Rightarrow> nat \<Rightarrow> nat list \<Rightarrow> nat list" where
  "rotate_in t1 t2 [a, b, c, d, e, f, g, h] = [add32 t1 t2, a, b, c, add32 d t1, e, f, g]"
| "rotate_in t1 t2 st = st"

fun round1 :: "nat \<Rightarrow> nat \<Rightarrow> nat list \<Rightarrow> nat list" where
  "round1 k w [a, b, c, d, e, f, g, h] =
     rotate_in (temp1 h e f g k w) (temp2 a b c) [a, b, c, d, e, f, g, h]"
| "round1 k w st = st"

fun rounds :: "nat list \<Rightarrow> nat list \<Rightarrow> nat list \<Rightarrow> nat list" where
  "rounds (k # ks) (w # ws) st = rounds ks ws (round1 k w st)"
| "rounds _ _ st = st"

definition compress :: "nat list \<Rightarrow> nat list \<Rightarrow> nat list" where
  "compress st blk = map2 add32 st (rounds K256 (rev (schedule 48 (rev blk))) st)"

fun blocks :: "nat \<Rightarrow> nat list \<Rightarrow> nat list list" where
  "blocks 0 ws = []"
| "blocks (Suc n) ws = take 16 ws # blocks n (drop 16 ws)"

fun sha_blocks :: "nat list list \<Rightarrow> nat list \<Rightarrow> nat list" where
  "sha_blocks [] st = st"
| "sha_blocks (blk # blks) st = sha_blocks blks (compress st blk)"

definition split_blocks :: "nat list \<Rightarrow> nat list list" where
  "split_blocks ws = blocks (length ws div 16) ws"

definition sha256 :: "nat list \<Rightarrow> nat list" where
  "sha256 m = sha_blocks (split_blocks (be_words (pad m))) H256"

definition hex32 :: "nat \<Rightarrow> string" where
  "hex32 w = map (\<lambda>i. hexdigit (w div 16 ^ i)) [7, 6, 5, 4, 3, 2, 1, 0]"

definition hexdigest :: "nat list \<Rightarrow> string" where
  "hexdigest ws = concat (map hex32 ws)"

section \<open>marshal, encode, generate_hash\<close>

text \<open>
  \<open>maketrans(frm, to)\<close> pairs the characters of its arguments, and \<open>s.translate(table)\<close>
  replaces every character the table has and keeps the others.
\<close>

definition maketrans :: "string \<Rightarrow> string \<Rightarrow> (char \<times> char) list" where
  "maketrans frm to = zip frm to"

definition str_translate :: "(char \<times> char) list \<Rightarrow> string \<Rightarrow> string" where
  "str_translate table s = map (\<lambda>c. case map_of table c of None \<Rightarrow> c | Some r \<Rightarrow> r) s"

definition encode :: "nat list \<Rightarrow> string" where
  "encode resource =
     str_translate (maketrans ''013ae'' ''ghkmt'') (take 10 (hexdigest (sha256 resource)))"

definition marshal :: "pydict \<Rightarrow> string list \<Rightarrow> nat list" where
  "marshal data keys =
     utf8 (dumps (PDict (fold (\<lambda>key ordered. dict_set ordered key (dict_get data key (PStr '''')))
                             keys [])))"

text \<open>
  \<open>generate_hash\<close> writes to the dict it is given, so the model returns, beside the result
  or the exception, the caller's dict as the call leaves it.
\<close>

definition generate_hash :: "pydict \<Rightarrow> (error + string) \<times> pydict" where
  "generate_hash resource =
     (case py_get (dict_get resource ''metadata'' (PDict [])) ''name'' (PStr '''') of
        Inl e \<Rightarrow> (Inl e, resource)
      | Inr name \<Rightarrow>
          (let resource1 = dict_set resource ''name'' name in
           case dict_getitem resource1 ''kind'' of
             Inl e \<Rightarrow> (Inl e, resource1)
           | Inr kind \<Rightarrow>
               if kind = PStr ''ConfigMap'' then
                 (let marshalled = marshal (sorted_dict resource1) [''data'', ''kind'', ''name'']
                  in case dict_del resource1 ''name'' of
                       Inl e \<Rightarrow> (Inl e, resource1)
                     | Inr resource2 \<Rightarrow> (Inr (encode marshalled), resource2))
               else if kind = PStr ''Secret'' then
                 (let marshalled =
                        marshal (sorted_dict resource1) [''data'', ''kind'', ''name'', ''type'']
                  in case dict_del resource1 ''name'' of
                       Inl e \<Rightarrow> (Inl e, resource1)
                     | Inr resource2 \<Rightarrow> (Inr (encode marshalled), resource2))
               else (Inl NotImplementedError, resource1)))"

section \<open>Notions used to state the properties\<close>

text \<open>What the loop of \<open>sorted_dict\<close> stores for a value \<open>v\<close>.\<close>

definition canon :: "pyval \<Rightarrow> pyval" where
  "canon v = (case v of PDict d \<Rightarrow> PDict (sorted_dict d) | _ \<Rightarrow> v)"

text \<open>
  The \<open>metadata\<close> entry of a Document is absent or a mapping. On any other value the
  lookup \<open>.get('name', '')\<close> of line 47 has no method to call.
\<close>

definition metadata_ok :: "pydict \<Rightarrow> bool" where
  "metadata_ok d =
     (case map_of d ''metadata'' of None \<Rightarrow> True | Some (PDict m) \<Rightarrow> True | Some _ \<Rightarrow> False)"

text \<open>The value found by following a list of keys through nested mappings.\<close>

fun get_path :: "pyval \<Rightarrow> string list \<Rightarrow> pyval option" where
  "get_path v [] = Some v"
| "get_path (PDict d) (k # ks) =
     (case map_of d k of None \<Rightarrow> None | Some v \<Rightarrow> get_path v ks)"
| "get_path _ (k # ks) = None"

text \<open>
  Two values at the same path agree: mappings have the same set of keys, and anything that
  is not a mapping (a scalar or a whole sequence) is the same value.
\<close>

definition same_level :: "pyval \<Rightarrow> pyval \<Rightarrow> bool" where
  "same_level v w =
     (case v of
        PDict a \<Rightarrow> (case w of PDict b \<Rightarrow> set (map fst a) = set (map fst b) | _ \<Rightarrow> False)
      | _ \<Rightarrow> w = v)"

text \<open>
  The fingerprint as the specification words it. Canonical form: all mapping keys sorted at
  every depth, recursing into nested mappings, sequences and scalars untouched.
\<close>

fun canonicalize :: "pyval \<Rightarrow> pyval" where
  "canonicalize (PDict d) =
     PDict (sort_key fst (map (\<lambda>kv. (fst kv, canonicalize (snd kv))) d))"
| "canonicalize v = v"

text \<open>The value at the nested path \<open>metadata.name\<close>, if there is one.\<close>

definition metadata_name :: "pydict \<Rightarrow> pyval option" where
  "metadata_name d =
     (case map_of d ''metadata'' of Some (PDict m) \<Rightarrow> map_of m ''name'' | _ \<Rightarrow> None)"

text \<open>
  A field of the projection: \<open>name\<close> is \<open>metadata.name\<close>, any other key is the
  Document's own entry, and a missing one is the empty string.
\<close>

definition spec_field :: "pydict \<Rightarrow> string \<Rightarrow> pyval" where
  "spec_field d key =
     (case (if key = ''name'' then metadata_name d else map_of d key) of
        None \<Rightarrow> PStr '''' | Some v \<Rightarrow> v)"

text \<open>The restricted projection, in the order of \<open>keys\<close>, with canonicalized values.\<close>

definition spec_projection :: "string list \<Rightarrow> pydict \<Rightarrow> pydict" where
  "spec_projection keys d = map (\<lambda>key. (key, canonicalize (spec_field d key))) keys"

text \<open>The substitution of the digits \<open>0 1 3 a e\<close> by the letters \<open>g h k m t\<close>.\<close>

definition substitute :: "char \<Rightarrow> char" where
  "substitute c =
     (if c = CHR ''0'' then CHR ''g''
      else if c = CHR ''1'' then CHR ''h''
      else if c = CHR ''3'' then CHR ''k''
      else if c = CHR ''a'' then CHR ''m''
      else if c = CHR ''e'' then CHR ''t''
      else c)"

text \<open>
  Compact JSON of the projection, SHA-256 of its UTF-8 bytes, the first 10 hexadecimal
  characters, the substitution.
\<close>

definition spec_fingerprint :: "string list \<Rightarrow> pydict \<Rightarrow> string" where
  "spec_fingerprint keys d =
     map substitute (take 10 (hexdigest (sha256 (utf8 (dumps (PDict (spec_projection keys d)))))))"

text \<open>
  Two values are field-wise equal except for the insertion order of mapping keys, at any
  depth, also in the mappings inside sequences.
\<close>

fun key_order_equiv :: "pyval \<Rightarrow> pyval \<Rightarrow> bool" where
  "key_order_equiv (PDict a) (PDict b) =
     (set (map fst a) = set (map fst b) \<and>
      (\<forall>kv \<in> set a. \<forall>kw \<in> set b. fst kv = fst kw \<longrightarrow> key_order_equiv (snd kv) (snd kw)))"
| "key_order_equiv (PList xs) (PList ys) = list_all2 key_order_equiv xs ys"
| "key_order_equiv v w = (v = w)"

text \<open>
  The same, but only in the mappings reached through mappings: a sequence is equal only to
  the very same sequence.
\<close>

fun mapping_key_order_equiv :: "pyval \<Rightarrow> pyval \<Rightarrow> bool" where
  "mapping_key_order_equiv (PDict a) (PDict b) =
     (set (map fst a) = set (map fst b) \<and>
      (\<forall>kv \<in> set a. \<forall>kw \<in> set b.
         fst kv = fst kw \<longrightarrow> mapping_key_order_equiv (snd kv) (snd kw)))"
| "mapping_key_order_equiv v w = (v = w)"

section \<open>sorted_dict on a heap of objects\<close>

text \<open>
  Python lists and dicts are objects that are passed and stored by reference. To say what
  \<open>sorted_dict\<close> does to the objects it is given, its run is modelled a second time on
  an explicit heap: a list of objects, the address of an object being its index, and a new
  object being appended. A value is a scalar or the address of a list or dict object.
\<close>

type_synonym addr = nat

datatype hval = HNone | HBool bool | HInt int | HStr string | HRef addr

datatype hobj = HList "hval list" | HDict "(string \<times> hval) list"

type_synonym heap = "hobj list"

definition obj_at :: "heap \<Rightarrow> addr \<Rightarrow> hobj option" where
  "obj_at h a = (if a < length h then Some (h ! a) else None)"

text \<open>\<open>isinstance(v, dict)\<close>: the address of the dict object, when \<open>v\<close> refers to one.\<close>

definition dict_ref :: "heap \<Rightarrow> hval \<Rightarrow> addr option" where
  "dict_ref h v =
     (case v of
        HRef b \<Rightarrow> (case obj_at h b of Some (HDict items) \<Rightarrow> Some b | _ \<Rightarrow> None)
      | _ \<Rightarrow> None)"

text \<open>\<open>result[k] = v\<close>: the dict object at address \<open>result\<close> is updated in place.\<close>

definition store_item :: "heap \<Rightarrow> addr \<Rightarrow> string \<Rightarrow> hval \<Rightarrow> heap" where
  "store_item h result k v =
     (case obj_at h result of
        Some (HDict items) \<Rightarrow> h[result := HDict (dict_set items k v)]
      | _ \<Rightarrow> h)"

text \<open>
  \<open>sorted_dict_heap n h a\<close> runs \<open>sorted_dict\<close> on the object at address \<open>a\<close> of the
  heap \<open>h\<close>, with \<open>n\<close> bounding the depth of the recursion: \<open>None\<close> is a run that does
  not return within the bound, \<open>Inl\<close> an exception (\<open>.items()\<close> of a list), \<open>Inr\<close> the
  address of the returned dict and the heap the run leaves. \<open>result = OrderedDict()\<close>
  allocates; \<open>sorted(unsorted_dict.items())\<close> is a list of the items taken before the
  loop; \<open>sorted_dict_loop\<close> is the loop over it.
\<close>

fun sorted_dict_heap :: "nat \<Rightarrow> heap \<Rightarrow> addr \<Rightarrow> (error + addr \<times> heap) option"
  and sorted_dict_loop ::
    "nat \<Rightarrow> (string \<times> hval) list \<Rightarrow> addr \<Rightarrow> heap \<Rightarrow> (error + addr \<times> heap) option"
where
  "sorted_dict_heap 0 h a = None"
| "sorted_dict_heap (Suc n) h a =
     (case obj_at h a of
        None \<Rightarrow> None
      | Some (HList xs) \<Rightarrow> Some (Inl AttributeError)
      | Some (HDict items) \<Rightarrow>
          sorted_dict_loop n (sort_key fst items) (length h) (h @ [HDict []]))"
| "sorted_dict_loop n [] result h = Some (Inr (result, h))"
| "sorted_dict_loop n ((k, v) # rest) result h =
     (case dict_ref h v of
        None \<Rightarrow> sorted_dict_loop n rest result (store_item h result k v)
      | Some b \<Rightarrow>
          (case sorted_dict_heap n h b of
             None \<Rightarrow> None
           | Some (Inl e) \<Rightarrow> Some (Inl e)
           | Some (Inr (v', h')) \<Rightarrow>
               sorted_dict_loop n rest result (store_item h' result k (HRef v'))))"

text \<open>The values an object holds.\<close>

fun values_of :: "hobj \<Rightarrow> hval list" where
  "values_of (HList xs) = xs"
| "values_of (HDict items) = map snd items"

text \<open>A reference points to an object of the heap.\<close>

definition valid_val :: "nat \<Rightarrow> hval \<Rightarrow> bool" where
  "valid_val n v = (case v of HRef c \<Rightarrow> c < n | _ \<Rightarrow> True)"

text \<open>Every reference that an object of the heap holds points to an object of the heap.\<close>

definition closed_heap :: "heap \<Rightarrow> bool" where
  "closed_heap h = (\<forall>ob \<in> set h. \<forall>v \<in> set (values_of ob). valid_val (length h) v)"

text \<open>
  The object at \<open>a\<close> is a dict, and dicts are nested in it, as values of dicts, to a depth
  of at most \<open>n\<close>. A Document, being a finite tree, has such a depth.
\<close>

fun nested_depth :: "nat \<Rightarrow> heap \<Rightarrow> addr \<Rightarrow> bool" where
  "nested_depth 0 h a = False"
| "nested_depth (Suc n) h a =
     (case obj_at h a of
        Some (HDict items) \<Rightarrow>
          (\<forall>kv \<in> set items.
             case dict_ref h (snd kv) of None \<Rightarrow> True | Some b \<Rightarrow> nested_depth n h b)
      | _ \<Rightarrow> False)"

text \<open>No object of \<open>h\<close> is changed in \<open>h'\<close>.\<close>

definition unchanged :: "heap \<Rightarrow> heap \<Rightarrow> bool" where
  "unchanged h h' = (length h \<le> length h' \<and> take (length h) h' = h)"

text \<open>
  Every object that \<open>h'\<close> has beyond \<open>h\<close> is a dict, and each of its values is a
  reference to another such new object, or a value that is not a dict: a scalar, or a
  reference to a list of \<open>h\<close>, which is shared.
\<close>

definition built_fresh :: "heap \<Rightarrow> heap \<Rightarrow> bool" where
  "built_fresh h h' =
     (\<forall>ob \<in> set (drop (length h) h').
        case ob of
          HList xs \<Rightarrow> False
        | HDict items \<Rightarrow>
            (\<forall>v \<in> set (map snd items).
               case v of HRef c \<Rightarrow> length h \<le> c \<or> dict_ref h v = None | _ \<Rightarrow> True))"

text \<open>
  What a run of \<open>sorted_dict\<close> from the heap \<open>h\<close> has to satisfy: it returns a dict at
  an address \<open>r\<close> that is new, no object of \<open>h\<close> is changed, and all it has built is new.
\<close>

definition returns_fresh :: "heap \<Rightarrow> (error + addr \<times> heap) option \<Rightarrow> bool" where
  "returns_fresh h res =
     (case res of
        Some (Inr (r, h')) \<Rightarrow>
          unchanged h h' \<and> length h \<le> r \<and> dict_ref h' (HRef r) = Some r \<and>
          built_fresh h h' \<and> closed_heap h'
      | _ \<Rightarrow> False)"

text \<open>
  The state of the loop: the heap is well formed, no object of the heap \<open>h0\<close> of the
  call is changed, all that is new is freshly built, and \<open>result\<close> is a dict.
\<close>

definition loop_ok :: "heap \<Rightarrow> addr \<Rightarrow> heap \<Rightarrow> bool" where
  "loop_ok h0 r h =
     (closed_heap h \<and> unchanged h0 h \<and> built_fresh h0 h \<and> dict_ref h (HRef r) = Some r)"

text \<open>
  In the heap \<open>h\<close>, the value \<open>v\<close> reads as the Document value \<open>t\<close>, through
  objects whose addresses are in \<open>A\<close>.
\<close>

fun reads_as :: "addr set \<Rightarrow> heap \<Rightarrow> hval \<Rightarrow> pyval \<Rightarrow> bool" where
  "reads_as A h v PNone = (v = HNone)"
| "reads_as A h v (PBool b) = (v = HBool b)"
| "reads_as A h v (PInt i) = (v = HInt i)"
| "reads_as A h v (PStr s) = (v = HStr s)"
| "reads_as A h v (PList ts) =
     (case v of
        HRef a \<Rightarrow>
          a \<in> A \<and>
          (case obj_at h a of
             Some (HList vs) \<Rightarrow> list_all2 (reads_as A h) vs ts
           | _ \<Rightarrow> False)
      | _ \<Rightarrow> False)"
| "reads_as A h v (PDict d) =
     (case v of
        HRef a \<Rightarrow>
          a \<in> A \<and>
          (case obj_at h a of
             Some (HDict items) \<Rightarrow>
               list_all2 (\<lambda>kv kt. fst kv = fst kt \<and> reads_as A h (snd kv) (snd kt)) items d
           | _ \<Rightarrow> False)
      | _ \<Rightarrow> False)"

text \<open>The depth to which dicts are nested in a value, as values of dicts.\<close>

fun depth :: "pyval \<Rightarrow> nat" where
  "depth (PDict d) = Suc (fold max (map (\<lambda>kv. depth (snd kv)) d) 0)"
| "depth v = 0"

text \<open>
  What a run of \<open>sorted_dict\<close> on the Document \<open>d\<close> at address \<open>a\<close> of the heap \<open>h\<close>
  has to satisfy: it returns; no object of \<open>h\<close> is changed, and the argument still reads
  as \<open>d\<close>; the returned dict is a new object that reads as \<open>sorted_dict d\<close>; and all
  that was built is new.
\<close>

definition returns_sorted_copy ::
  "heap \<Rightarrow> addr \<Rightarrow> pydict \<Rightarrow> (error + addr \<times> heap) option \<Rightarrow> bool" where
  "returns_sorted_copy h a d res =
     (case res of
        Some (Inr (r, h')) \<Rightarrow>
          unchanged h h' \<and> reads_as {..<length h} h' (HRef a) (PDict d) \<and>
          length h \<le> r \<and> reads_as UNIV h' (HRef r) (PDict (sorted_dict d)) \<and>
          built_fresh h h'
      | _ \<Rightarrow> False)"

text \<open>
  A heap with the Document \<open>{"b": {"z": None, "y": "s"}, "a": [<the dict of b>, 2], "c": 1}\<close>
  at address 0.
\<close>

definition example_heap :: heap where
  "example_heap =
     [HDict [(''b'', HRef 1), (''a'', HRef 2), (''c'', HInt 1)],
      HDict [(''z'', HNone), (''y'', HStr ''s'')],
      HList [HRef 1, HInt 2]]"

section \<open>The structural differ\<close>

text \<open>
  Modelled from the spec: \<open>diff_objects\<close> (\<open>K8sService.diff_objects\<close>, called by
  \<open>tests/unit/module_utils/test_service.py\<close>) is not among the source files. The four
  definitions below follow section 4.2 of the specification. A leaf whose values are
  unequal is recorded on both sides (step 2).
\<close>

definition diff_leaf ::
  "string \<Rightarrow> pyval \<Rightarrow> pyval \<Rightarrow> pydict \<times> pydict \<Rightarrow> pydict \<times> pydict" where
  "diff_leaf k v w acc =
     (if v = w then acc else (fst acc @ [(k, v)], snd acc @ [(k, w)]))"

text \<open>
  Modelled from the spec: \<open>diff_objects\<close> is not among the source files. The result of
  the recursion into two nested mappings is put under their key, on each side that has a
  differing descendant; an ancestor with none is omitted (step 3).
\<close>

definition diff_nested ::
  "string \<Rightarrow> pydict \<times> pydict \<Rightarrow> pydict \<times> pydict \<Rightarrow> pydict \<times> pydict" where
  "diff_nested k sub acc =
     (if fst sub = [] then fst acc else fst acc @ [(k, PDict (fst sub))],
      if snd sub = [] then snd acc else snd acc @ [(k, PDict (snd sub))])"

text \<open>
  Modelled from the spec: \<open>diff_objects\<close> is not among the source files. At each nesting
  level, for every key of either side: a key of one side only is recorded on that side;
  two nested mappings are compared recursively; any other two values are compared as
  leaves, a sequence as a whole (steps 1 and 2). The result is the pair of the partial
  Documents of the two sides.
\<close>

function diff_rec :: "pydict \<Rightarrow> pydict \<Rightarrow> pydict \<times> pydict" where
  "diff_rec before after =
     fold (\<lambda>k acc.
             case map_of before k of
               None \<Rightarrow>
                 (case map_of after k of
                    None \<Rightarrow> acc
                  | Some w \<Rightarrow> (fst acc, snd acc @ [(k, w)]))
             | Some v \<Rightarrow>
                 (case map_of after k of
                    None \<Rightarrow> (fst acc @ [(k, v)], snd acc)
                  | Some w \<Rightarrow>
                      (case v of
                         PDict b \<Rightarrow>
                           (case w of
                              PDict a \<Rightarrow> diff_nested k (diff_rec b a) acc
                            | _ \<Rightarrow> diff_leaf k v w acc)
                       | _ \<Rightarrow> diff_leaf k v w acc)))
          (remdups (map fst before @ map fst after)) ([], [])"
  by pat_completeness auto
termination
proof (relation "measure (\<lambda>(before, after). size_list (size_prod (\<lambda>_. 0) size) before)")
  show "wf (measure (\<lambda>(before, after). size_list (size_prod (\<lambda>_. 0) size) before))"
    by simp
next
  fix before after :: pydict and k acc v w b a
  assume "map_of before k = Some v" and "v = PDict b"
  then have mem: "(k, PDict b) \<in> set before"
    by (auto dest: map_of_SomeD)
  have "(k, PDict b) \<in> set xs \<Longrightarrow>
        size_list (size_prod (\<lambda>_. 0) size) b < size_list (size_prod (\<lambda>_. 0) size) xs"
    for xs :: pydict
    by (induction xs) auto
  from this [OF mem]
  show "((b, a), (before, after))
          \<in> measure (\<lambda>(before, after). size_list (size_prod (\<lambda>_. 0) size) before)"
    by simp
qed

declare diff_rec.simps [simp del]

text \<open>
  Modelled from the spec: \<open>diff_objects\<close> is not among the source files. \<open>matches\<close> is
  true iff no differing leaf was found, and then the delta is empty; otherwise the delta
  has the two keys \<open>before\<close> and \<open>after\<close> (step 4).
\<close>

definition diff_objects :: "pydict \<Rightarrow> pydict \<Rightarrow> bool \<times> pydict" where
  "diff_objects before after =
     (case diff_rec before after of
        (db, da) \<Rightarrow>
          if db = [] \<and> da = [] then (True, [])
          else (False, [(''before'', PDict db), (''after'', PDict da)]))"

text \<open>The Document \<open>pod_definition\<close> of the unit tests.\<close>

definition pod_definition :: pydict where
  "pod_definition =
     [(''apiVersion'', PStr ''v1''),
      (''kind'', PStr ''Pod''),
      (''metadata'', PDict
         [(''name'', PStr ''foo''),
          (''labels'', PDict [(''environment'', PStr ''production''), (''app'', PStr ''nginx'')]),
          (''namespace'', PStr ''foo'')]),
      (''spec'', PDict
         [(''containers'', PList
            [PDict [(''name'', PStr ''nginx''),
                    (''image'', PStr ''nginx:1.14.2''),
                    (''command'', PList [PStr ''/bin/sh'', PStr ''-c'', PStr ''sleep 10''])]])])]"

section \<open>Dictionary operations\<close>

lemma dict_set_fresh: "k \<notin> set (map fst d) \<Longrightarrow> dict_set d k v = d @ [(k, v)]"
  by (induction d) auto

lemma map_of_dict_set: "map_of (dict_set d k v) = (map_of d)(k \<mapsto> v)"
  by (induction d) (auto simp: fun_eq_iff)

lemma map_fst_dict_set:
  "map fst (dict_set d k v) = (if k \<in> set (map fst d) then map fst d else map fst d @ [k])"
  by (induction d) force+

lemma keys_dict_set: "set (map fst (dict_set d k v)) = insert k (set (map fst d))"
  by (auto simp: map_fst_dict_set)

lemma distinct_dict_set: "distinct (map fst d) \<Longrightarrow> distinct (map fst (dict_set d k v))"
  by (simp add: map_fst_dict_set)

lemma dict_del_dict_set_fresh:
  "k \<notin> set (map fst d) \<Longrightarrow> dict_del (dict_set d k v) k = Inr d"
proof -
  assume fresh: "k \<notin> set (map fst d)"
  then have "filter (\<lambda>kv. fst kv \<noteq> k) d = d"
    by (induction d) auto
  with fresh show ?thesis
    by (simp add: dict_del_def dict_set_fresh)
qed

lemma dict_del_dict_set: "\<exists>d'. dict_del (dict_set d k v) k = Inr d'"
  by (simp add: dict_del_def keys_dict_set del: set_map)

section \<open>What sorted_dict computes\<close>

lemma fold_dict_set_distinct:
  "distinct (map fst (acc @ xs)) \<Longrightarrow>
   fold (\<lambda>(k, v) result. dict_set result k (f v)) xs acc = acc @ map (\<lambda>(k, v). (k, f v)) xs"
proof (induction xs arbitrary: acc)
  case Nil
  then show ?case by simp
next
  case (Cons x xs)
  obtain k v where x: "x = (k, v)" by (cases x)
  from Cons.prems have fresh: "k \<notin> set (map fst acc)" by (auto simp: x)
  from Cons.prems have "distinct (map fst ((acc @ [(k, f v)]) @ xs))" by (auto simp: x)
  from Cons.IH [OF this] show ?case by (simp add: x dict_set_fresh [OF fresh])
qed

lemma sorted_dict_distinct:
  "distinct (map fst d) \<Longrightarrow> sorted_dict d = map (\<lambda>(k, v). (k, canon v)) (sort_key fst d)"
proof -
  assume "distinct (map fst d)"
  then have "distinct (map fst ([] @ sort_key fst d))"
    by (simp add: distinct_map)
  from fold_dict_set_distinct [OF this, of canon] show ?thesis
    by (subst sorted_dict.simps) (simp add: canon_def [abs_def])
qed

lemma sorted_keys_sorted_dict:
  "distinct (map fst d) \<Longrightarrow> sorted (map fst (sorted_dict d))"
  by (simp add: sorted_dict_distinct case_prod_unfold comp_def)

lemma distinct_keys_sorted_dict:
  "distinct (map fst d) \<Longrightarrow> distinct (map fst (sorted_dict d))"
  by (simp add: sorted_dict_distinct case_prod_unfold comp_def distinct_map)

lemma keys_sorted_dict:
  "distinct (map fst d) \<Longrightarrow> set (map fst (sorted_dict d)) = set (map fst d)"
  by (simp add: sorted_dict_distinct case_prod_unfold comp_def)

lemma map_of_sorted_dict:
  "distinct (map fst d) \<Longrightarrow> map_of (sorted_dict d) k = map_option canon (map_of d k)"
proof -
  assume dist: "distinct (map fst d)"
  have "map_of (sort_key fst d) = map_of d"
    using dist by (intro map_of_inject_set [THEN iffD2]) (simp_all add: distinct_map)
  then show ?thesis
    by (simp add: sorted_dict_distinct [OF dist] map_of_map)
qed

lemma canon_idem: "unique_keys v \<Longrightarrow> canon (canon v) = canon v"
proof (induction v)
  case (PDict d)
  then have dist: "distinct (map fst d)" by simp
  have vals: "canon (canon v) = canon v" if "(k, v) \<in> set d" for k v
    using PDict.IH [of "(k, v)" v] PDict.prems that by force
  let ?s = "sorted_dict d"
  have s: "?s = map (\<lambda>(k, v). (k, canon v)) (sort_key fst d)"
    by (rule sorted_dict_distinct [OF dist])
  have "sorted_dict ?s = map (\<lambda>(k, v). (k, canon v)) (sort_key fst ?s)"
    by (rule sorted_dict_distinct [OF distinct_keys_sorted_dict [OF dist]])
  also have "sort_key fst ?s = ?s"
    by (rule sort_key_id_if_sorted [OF sorted_keys_sorted_dict [OF dist]])
  also have "map (\<lambda>(k, v). (k, canon v)) ?s = ?s"
    unfolding s using vals by (auto simp: case_prod_unfold)
  finally show ?case by (simp add: canon_def)
qed (simp_all add: canon_def)

text \<open>
  C6. Canonicalization is idempotent: for every Document \<open>d\<close> (a dict, so with unique
  keys), \<open>sorted_dict (sorted_dict d)\<close> is the very same structure as \<open>sorted_dict d\<close>,
  keys in the same order and values identical.
\<close>

theorem sorted_dict_idempotent:
  "unique_keys (PDict d) \<Longrightarrow> sorted_dict (sorted_dict d) = sorted_dict d"
  using canon_idem [of "PDict d"] by (simp add: canon_def)

theorem sorted_dict_idempotent_witness:
  "unique_keys (PDict [(''b'', PDict [(''z'', PInt 1), (''y'', PNone)]), (''a'', PStr ''x'')]) \<and>
   sorted_dict (sorted_dict [(''b'', PDict [(''z'', PInt 1), (''y'', PNone)]), (''a'', PStr ''x'')])
     = sorted_dict [(''b'', PDict [(''z'', PInt 1), (''y'', PNone)]), (''a'', PStr ''x'')] \<and>
   sorted_dict [(''b'', PDict [(''z'', PInt 1), (''y'', PNone)]), (''a'', PStr ''x'')]
     = [(''a'', PStr ''x''), (''b'', PDict [(''y'', PNone), (''z'', PInt 1)])]"
  using sorted_dict_idempotent
          [of "[(''b'', PDict [(''z'', PInt 1), (''y'', PNone)]), (''a'', PStr ''x'')]"]
  by (simp add: sorted_dict.simps)

lemma get_path_canon:
  "unique_keys v \<Longrightarrow> rel_option same_level (get_path v p) (get_path (canon v) p)"
proof (induction p arbitrary: v)
  case Nil
  then show ?case
    by (cases v) (simp_all add: canon_def same_level_def keys_sorted_dict del: set_map)
next
  case (Cons k ks)
  show ?case
  proof (cases v)
    case (PDict d)
    with Cons.prems have dist: "distinct (map fst d)" by simp
    show ?thesis
    proof (cases "map_of d k")
      case None
      then show ?thesis
        by (simp add: PDict canon_def map_of_sorted_dict [OF dist])
    next
      case (Some x)
      then have "(k, x) \<in> set d" by (rule map_of_SomeD)
      with Cons.prems PDict have "unique_keys x" by auto
      from Cons.IH [OF this] Some show ?thesis
        by (simp add: PDict canon_def [of "PDict d"] map_of_sorted_dict [OF dist])
    qed
  qed (simp_all add: canon_def)
qed

text \<open>
  C7. Canonicalization only reorders keys. Follow any list of keys \<open>p\<close> through the
  nested mappings of a Document \<open>d\<close> and of \<open>sorted_dict d\<close>: the path exists in one
  exactly when it exists in the other; where it ends in a mapping, both mappings have the
  same set of keys; where it ends in anything else, both hold the same value.
\<close>

theorem sorted_dict_keeps_keys_and_values:
  "unique_keys (PDict d) \<Longrightarrow>
   rel_option same_level (get_path (PDict d) p) (get_path (PDict (sorted_dict d)) p)"
  using get_path_canon [of "PDict d" p] by (simp add: canon_def)

theorem sorted_dict_keeps_keys_and_values_witness:
  "unique_keys (PDict [(''b'', PDict [(''z'', PList [PInt 1]), (''y'', PNone)]), (''a'', PStr ''x'')]) \<and>
   rel_option same_level
     (get_path (PDict [(''b'', PDict [(''z'', PList [PInt 1]), (''y'', PNone)]), (''a'', PStr ''x'')])
        [''b'', ''z''])
     (get_path (PDict (sorted_dict
        [(''b'', PDict [(''z'', PList [PInt 1]), (''y'', PNone)]), (''a'', PStr ''x'')])) [''b'', ''z'']) \<and>
   get_path (PDict (sorted_dict
        [(''b'', PDict [(''z'', PList [PInt 1]), (''y'', PNone)]), (''a'', PStr ''x'')])) [''b'', ''z'']
     = Some (PList [PInt 1])"
  using sorted_dict_keeps_keys_and_values
          [of "[(''b'', PDict [(''z'', PList [PInt 1]), (''y'', PNone)]), (''a'', PStr ''x'')]"
              "[''b'', ''z'']"]
  by (simp add: sorted_dict.simps)

section \<open>generate_hash: the exception raised and the state of the caller's dict\<close>

lemma get_name_ok:
  "metadata_ok d \<Longrightarrow>
   \<exists>name. py_get (dict_get d ''metadata'' (PDict [])) ''name'' (PStr '''') = Inr name"
  by (auto simp: metadata_ok_def dict_get_def split: option.splits pyval.splits)

lemma get_name_bad:
  "\<not> metadata_ok d \<Longrightarrow>
   py_get (dict_get d ''metadata'' (PDict [])) ''name'' (PStr '''') = Inl AttributeError"
  by (auto simp: metadata_ok_def dict_get_def split: option.splits pyval.splits)

lemma generate_hash_bad_metadata:
  "\<not> metadata_ok d \<Longrightarrow> generate_hash d = (Inl AttributeError, d)"
  by (simp add: generate_hash_def get_name_bad)

lemma generate_hash_no_kind:
  "metadata_ok d \<Longrightarrow> map_of d ''kind'' = None \<Longrightarrow> fst (generate_hash d) = Inl KeyError"
  using get_name_ok [of d]
  by (auto simp: generate_hash_def dict_getitem_def map_of_dict_set)

lemma generate_hash_other_kind:
  "metadata_ok d \<Longrightarrow> map_of d ''kind'' = Some kind \<Longrightarrow>
   kind \<noteq> PStr ''ConfigMap'' \<Longrightarrow> kind \<noteq> PStr ''Secret'' \<Longrightarrow>
   fst (generate_hash d) = Inl NotImplementedError"
  using get_name_ok [of d]
  by (auto simp: generate_hash_def dict_getitem_def map_of_dict_set)

lemma generate_hash_restores:
  "''name'' \<notin> set (map fst d) \<Longrightarrow> fst (generate_hash d) = Inr h \<Longrightarrow>
   snd (generate_hash d) = d"
  by (auto simp: generate_hash_def Let_def dict_del_dict_set_fresh
           split: sum.splits if_splits)

text \<open>
  C1. The claim: after \<open>generate_hash\<close> returns or raises, the caller's Document is as it
  was before the call. The code does not keep it: on \<open>{"kind": "Pod"}\<close> the call raises
  \<open>NotImplementedError\<close> and leaves the key \<open>name\<close>, set on line 47, in the caller's
  dict, since only the two returning branches delete it; and on
  \<open>{"kind": "ConfigMap", "name": "x"}\<close> the key \<open>name\<close> the caller had is overwritten
  and then deleted.
\<close>

theorem generate_hash_changes_resource:
  "generate_hash [(''kind'', PStr ''Pod'')] =
     (Inl NotImplementedError, [(''kind'', PStr ''Pod''), (''name'', PStr '''')]) \<and>
   snd (generate_hash [(''kind'', PStr ''ConfigMap''), (''name'', PStr ''x'')]) =
     [(''kind'', PStr ''ConfigMap'')]"
  by (simp add: generate_hash_def dict_get_def dict_getitem_def dict_del_def)

text \<open>
  C3, as the code has it. For a Document whose \<open>kind\<close> is neither \<open>ConfigMap\<close> nor
  \<open>Secret\<close>, \<open>generate_hash\<close> returns no fingerprint: it raises
  \<open>NotImplementedError\<close> when \<open>metadata\<close> is absent or a mapping, and
  \<open>AttributeError\<close>, from line 47, when \<open>metadata\<close> is any other value.
\<close>

theorem generate_hash_unsupported_kind:
  "map_of d ''kind'' = Some kind \<Longrightarrow>
   kind \<noteq> PStr ''ConfigMap'' \<Longrightarrow> kind \<noteq> PStr ''Secret'' \<Longrightarrow>
   fst (generate_hash d) = Inl (if metadata_ok d then NotImplementedError else AttributeError)"
  by (simp add: generate_hash_other_kind generate_hash_bad_metadata)

theorem generate_hash_unsupported_kind_witness:
  "map_of [(''kind'', PStr ''Pod''), (''metadata'', PDict [(''name'', PStr ''foo'')])] ''kind''
     = Some (PStr ''Pod'') \<and>
   PStr ''Pod'' \<noteq> PStr ''ConfigMap'' \<and> PStr ''Pod'' \<noteq> PStr ''Secret'' \<and>
   fst (generate_hash [(''kind'', PStr ''Pod''), (''metadata'', PDict [(''name'', PStr ''foo'')])])
     = Inl NotImplementedError"
  using generate_hash_unsupported_kind
          [of "[(''kind'', PStr ''Pod''), (''metadata'', PDict [(''name'', PStr ''foo'')])]"
              "PStr ''Pod''"]
  by (simp add: metadata_ok_def)

text \<open>
  The claim C3 as stated, that every Document of another kind raises
  \<open>NotImplementedError\<close>, fails on \<open>{"kind": "Pod", "metadata": None}\<close>.
\<close>

theorem generate_hash_unsupported_kind_counterexample:
  "map_of [(''kind'', PStr ''Pod''), (''metadata'', PNone)] ''kind'' = Some (PStr ''Pod'') \<and>
   fst (generate_hash [(''kind'', PStr ''Pod''), (''metadata'', PNone)]) = Inl AttributeError \<and>
   fst (generate_hash [(''kind'', PStr ''Pod''), (''metadata'', PNone)]) \<noteq> Inl NotImplementedError"
  by (simp add: generate_hash_def dict_get_def)

text \<open>
  C9, as the code has it. For a Document with no top-level \<open>kind\<close> key,
  \<open>generate_hash\<close> raises \<open>KeyError\<close> when \<open>metadata\<close> is absent or a mapping, and
  \<open>AttributeError\<close> when \<open>metadata\<close> is any other value; in neither case
  \<open>NotImplementedError\<close>, and it returns no fingerprint.
\<close>

theorem generate_hash_missing_kind:
  "map_of d ''kind'' = None \<Longrightarrow>
   fst (generate_hash d) = Inl (if metadata_ok d then KeyError else AttributeError)"
  by (simp add: generate_hash_no_kind generate_hash_bad_metadata)

theorem generate_hash_missing_kind_witness:
  "map_of [(''metadata'', PDict [(''name'', PStr ''foo'')]), (''data'', PDict [])] ''kind'' = None \<and>
   fst (generate_hash [(''metadata'', PDict [(''name'', PStr ''foo'')]), (''data'', PDict [])])
     = Inl KeyError"
  using generate_hash_missing_kind
          [of "[(''metadata'', PDict [(''name'', PStr ''foo'')]), (''data'', PDict [])]"]
  by (simp add: metadata_ok_def)

text \<open>
  The claim C9 as stated, that every Document without \<open>kind\<close> raises \<open>KeyError\<close>,
  fails on \<open>{"metadata": "x"}\<close>.
\<close>

theorem generate_hash_missing_kind_counterexample:
  "map_of [(''metadata'', PStr ''x'')] ''kind'' = None \<and>
   fst (generate_hash [(''metadata'', PStr ''x'')]) = Inl AttributeError \<and>
   fst (generate_hash [(''metadata'', PStr ''x'')]) \<noteq> Inl KeyError"
  by (simp add: generate_hash_def dict_get_def)

section \<open>generate_hash: the fingerprint\<close>

lemma fold_keys_dict_set:
  "distinct (map fst acc @ keys) \<Longrightarrow>
   fold (\<lambda>key ordered. dict_set ordered key (f key)) keys acc = acc @ map (\<lambda>key. (key, f key)) keys"
proof (induction keys arbitrary: acc)
  case Nil
  then show ?case by simp
next
  case (Cons k ks)
  from Cons.prems have fresh: "k \<notin> set (map fst acc)" by auto
  from Cons.prems have "distinct (map fst (acc @ [(k, f k)]) @ ks)" by auto
  from Cons.IH [OF this] show ?case by (simp add: dict_set_fresh [OF fresh])
qed

lemma marshal_distinct:
  "distinct keys \<Longrightarrow>
   marshal data keys = utf8 (dumps (PDict (map (\<lambda>key. (key, dict_get data key (PStr ''''))) keys)))"
  using fold_keys_dict_set [of "[]" keys "\<lambda>key. dict_get data key (PStr '''')"]
  by (simp add: marshal_def)

lemma dict_get_sorted_dict:
  "distinct (map fst r) \<Longrightarrow>
   dict_get (sorted_dict r) key (PStr '''') = canon (dict_get r key (PStr ''''))"
  by (cases "map_of r key") (simp_all add: dict_get_def map_of_sorted_dict canon_def)

lemma get_name_spec:
  "metadata_ok d \<Longrightarrow>
   py_get (dict_get d ''metadata'' (PDict [])) ''name'' (PStr '''') = Inr (spec_field d ''name'')"
  by (auto simp: metadata_ok_def dict_get_def spec_field_def metadata_name_def
           split: option.splits pyval.splits)

lemma dict_get_with_name:
  "dict_get (dict_set d ''name'' (spec_field d ''name'')) key (PStr '''') = spec_field d key"
  by (simp add: dict_get_def map_of_dict_set spec_field_def)

lemma marshal_sorted_dict:
  assumes "distinct (map fst d)" and "distinct keys"
  shows "marshal (sorted_dict (dict_set d ''name'' (spec_field d ''name''))) keys =
         utf8 (dumps (PDict (map (\<lambda>key. (key, canon (spec_field d key))) keys)))"
proof -
  have "distinct (map fst (dict_set d ''name'' (spec_field d ''name'')))"
    using assms(1) by (rule distinct_dict_set)
  then show ?thesis
    by (simp add: marshal_distinct [OF assms(2)] dict_get_sorted_dict dict_get_with_name)
qed

lemma generate_hash_supported:
  assumes "metadata_ok d"
  shows "fst (generate_hash d) =
     (case map_of d ''kind'' of
        None \<Rightarrow> Inl KeyError
      | Some kind \<Rightarrow>
          if kind = PStr ''ConfigMap'' then
            Inr (encode (marshal (sorted_dict (dict_set d ''name'' (spec_field d ''name'')))
                                 [''data'', ''kind'', ''name'']))
          else if kind = PStr ''Secret'' then
            Inr (encode (marshal (sorted_dict (dict_set d ''name'' (spec_field d ''name'')))
                                 [''data'', ''kind'', ''name'', ''type'']))
          else Inl NotImplementedError)"
proof -
  obtain d' where "dict_del (dict_set d ''name'' (spec_field d ''name'')) ''name'' = Inr d'"
    using dict_del_dict_set by blast
  then show ?thesis
    by (simp add: generate_hash_def get_name_spec [OF assms] dict_getitem_def map_of_dict_set
             split: option.splits)
qed

lemma str_translate_substitute:
  "str_translate (maketrans ''013ae'' ''ghkmt'') s = map substitute s"
  by (simp add: str_translate_def maketrans_def substitute_def)


lemma length_rotate_in: "length (rotate_in t1 t2 st) = length st"
  by (induction t1 t2 st rule: rotate_in.induct) simp_all

lemma length_round1: "length (round1 k w st) = length st"
  by (induction k w st rule: round1.induct) simp_all

lemma length_rounds: "length (rounds ks ws st) = length st"
  by (induction ks ws st rule: rounds.induct) (simp_all add: length_round1)

lemma length_compress: "length (compress st blk) = length st"
  by (simp add: compress_def length_rounds)

lemma length_sha_blocks: "length (sha_blocks blks st) = length st"
  by (induction blks arbitrary: st) (simp_all add: length_compress)

lemma length_sha256: "length (sha256 m) = 8"
  by (simp add: sha256_def length_sha_blocks H256_def)

lemma length_hexdigest: "length (hexdigest ws) = 8 * length ws"
  by (induction ws) (simp_all add: hexdigest_def hex32_def)

lemma length_encode: "length (encode m) = 10"
  by (simp add: encode_def str_translate_def length_hexdigest length_sha256)

lemma length_spec_fingerprint: "length (spec_fingerprint keys d) = 10"
  by (simp add: spec_fingerprint_def length_hexdigest length_sha256)

lemma unique_keys_spec_field:
  assumes "unique_keys (PDict d)"
  shows "unique_keys (spec_field d key)"
proof -
  have val: "unique_keys v" if "map_of d k = Some v" for k v
    using assms map_of_SomeD [OF that] by auto
  show ?thesis
  proof (cases "key = ''name''")
    case False
    then show ?thesis
      using val [of key] by (simp add: spec_field_def split: option.splits)
  next
    case True
    show ?thesis
    proof (cases "metadata_name d")
      case None
      then show ?thesis by (simp add: spec_field_def True)
    next
      case (Some v)
      then obtain m where m: "map_of d ''metadata'' = Some (PDict m)" and v: "map_of m ''name'' = Some v"
        by (auto simp: metadata_name_def split: option.splits pyval.splits)
      from val [OF m] map_of_SomeD [OF v] have "unique_keys v" by auto
      with Some show ?thesis by (simp add: spec_field_def True)
    qed
  qed
qed

lemma canon_canonicalize: "unique_keys v \<Longrightarrow> canon v = canonicalize v"
proof (induction v)
  case (PDict d)
  then have dist: "distinct (map fst d)" by simp
  have vals: "canon v = canonicalize v" if "(k, v) \<in> set d" for k v
    using PDict.IH [of "(k, v)" v] PDict.prems that by force
  have ins: "insort_key fst (fst x, g (snd x)) (map (\<lambda>kv. (fst kv, g (snd kv))) ys) =
             map (\<lambda>kv. (fst kv, g (snd kv))) (insort_key fst x ys)"
    for g :: "pyval \<Rightarrow> pyval" and x :: "string \<times> pyval" and ys
    by (induction ys) auto
  have srt: "sort_key fst (map (\<lambda>kv. (fst kv, g (snd kv))) xs) =
             map (\<lambda>kv. (fst kv, g (snd kv))) (sort_key fst xs)"
    for g :: "pyval \<Rightarrow> pyval" and xs :: pydict
    by (induction xs) (simp_all add: ins)
  have "sorted_dict d = map (\<lambda>kv. (fst kv, canon (snd kv))) (sort_key fst d)"
    by (simp add: sorted_dict_distinct [OF dist] case_prod_unfold)
  also have "\<dots> = sort_key fst (map (\<lambda>kv. (fst kv, canon (snd kv))) d)"
    by (simp add: srt)
  also have "map (\<lambda>kv. (fst kv, canon (snd kv))) d = map (\<lambda>kv. (fst kv, canonicalize (snd kv))) d"
    using vals by auto
  finally show ?case by (simp add: canon_def)
qed (simp_all add: canon_def)

lemma encode_marshal_spec:
  assumes "unique_keys (PDict d)" and "distinct keys"
  shows "encode (marshal (sorted_dict (dict_set d ''name'' (spec_field d ''name''))) keys) =
         spec_fingerprint keys d"
proof -
  from assms(1) have dist: "distinct (map fst d)" by simp
  have "map (\<lambda>key. (key, canon (spec_field d key))) keys = spec_projection keys d"
    by (simp add: spec_projection_def canon_canonicalize [OF unique_keys_spec_field [OF assms(1)]])
  then show ?thesis
    by (simp add: marshal_sorted_dict [OF dist assms(2)] encode_def spec_fingerprint_def
                  str_translate_substitute)
qed

text \<open>
  C2, as the code has it. For every Document (a dict, so with unique keys) whose
  \<open>metadata\<close> is absent or a mapping: with kind \<open>ConfigMap\<close>, \<open>generate_hash\<close> returns
  exactly the specification's fingerprint of the projection \<open>data\<close>, \<open>kind\<close>, \<open>name\<close>;
  with kind \<open>Secret\<close>, that of \<open>data\<close>, \<open>kind\<close>, \<open>name\<close>, \<open>type\<close>; and the fingerprint
  has 10 characters.
\<close>

theorem generate_hash_fingerprint:
  assumes "unique_keys (PDict d)" and "metadata_ok d"
  shows "(map_of d ''kind'' = Some (PStr ''ConfigMap'') \<longrightarrow>
            fst (generate_hash d) = Inr (spec_fingerprint [''data'', ''kind'', ''name''] d)) \<and>
         (map_of d ''kind'' = Some (PStr ''Secret'') \<longrightarrow>
            fst (generate_hash d) = Inr (spec_fingerprint [''data'', ''kind'', ''name'', ''type''] d)) \<and>
         length (spec_fingerprint keys d) = 10"
  by (simp add: generate_hash_supported [OF assms(2)] encode_marshal_spec [OF assms(1)]
                length_spec_fingerprint)

lemma spec_field_agree:
  assumes "map_of d1 ''data'' = map_of d2 ''data''" and "map_of d1 ''kind'' = map_of d2 ''kind''"
    and "map_of d1 ''type'' = map_of d2 ''type''" and "metadata_name d1 = metadata_name d2"
    and "key \<in> set [''data'', ''kind'', ''name'', ''type'']"
  shows "spec_field d1 key = spec_field d2 key"
  using assms by (auto simp: spec_field_def)

text \<open>
  C5, as the code has it. Two Documents in which \<open>metadata\<close> is absent or a mapping and
  that agree on \<open>data\<close>, \<open>kind\<close>, \<open>type\<close> and \<open>metadata.name\<close> get the same result
  from \<open>generate_hash\<close>, whatever their other fields are: the same fingerprint, or the
  same exception.
\<close>

theorem generate_hash_noninterference:
  assumes "distinct (map fst d1)" and "distinct (map fst d2)"
    and "metadata_ok d1" and "metadata_ok d2"
    and "map_of d1 ''data'' = map_of d2 ''data''" and "map_of d1 ''kind'' = map_of d2 ''kind''"
    and "map_of d1 ''type'' = map_of d2 ''type''" and "metadata_name d1 = metadata_name d2"
  shows "fst (generate_hash d1) = fst (generate_hash d2)"
proof -
  have f: "spec_field d1 key = spec_field d2 key"
    if "key \<in> set [''data'', ''kind'', ''name'', ''type'']" for key
    using spec_field_agree [OF assms(5-8) that] .
  have "marshal (sorted_dict (dict_set d1 ''name'' (spec_field d1 ''name''))) keys =
        marshal (sorted_dict (dict_set d2 ''name'' (spec_field d2 ''name''))) keys"
    if "distinct keys" and "set keys \<subseteq> set [''data'', ''kind'', ''name'', ''type'']" for keys
  proof -
    have "map (\<lambda>key. (key, canon (spec_field d1 key))) keys =
          map (\<lambda>key. (key, canon (spec_field d2 key))) keys"
      using that(2) f by auto
    then show ?thesis
      by (simp only: marshal_sorted_dict [OF assms(1) that(1)]
                     marshal_sorted_dict [OF assms(2) that(1)])
  qed
  from this [of "[''data'', ''kind'', ''name'']"] this [of "[''data'', ''kind'', ''name'', ''type'']"]
  show ?thesis
    by (simp add: generate_hash_supported [OF assms(3)] generate_hash_supported [OF assms(4)] assms(6)
             split: option.splits)
qed


lemma mko_lookup:
  assumes "distinct (map fst a)" and "distinct (map fst b)"
    and "mapping_key_order_equiv (PDict a) (PDict b)"
  shows "rel_option mapping_key_order_equiv (map_of a k) (map_of b k)"
proof (cases "k \<in> set (map fst a)")
  case False
  with assms(3) have "k \<notin> set (map fst b)" by simp
  with False have "map_of a k = None" and "map_of b k = None"
    by (simp_all add: map_of_eq_None_iff)
  then show ?thesis by simp
next
  case True
  with assms(3) have kb: "k \<in> set (map fst b)" by simp
  from True obtain v where v: "map_of a k = Some v"
    by (cases "map_of a k") (simp_all add: map_of_eq_None_iff)
  from kb obtain w where w: "map_of b k = Some w"
    by (cases "map_of b k") (simp_all add: map_of_eq_None_iff)
  from assms(3) map_of_SomeD [OF v] map_of_SomeD [OF w]
  have "mapping_key_order_equiv v w" by fastforce
  with v w show ?thesis by simp
qed

lemma mko_PStr: "mapping_key_order_equiv v (PStr s) \<longleftrightarrow> v = PStr s"
  by (cases v) simp_all

lemma mko_PDict_right:
  "mapping_key_order_equiv v (PDict b) \<Longrightarrow> \<exists>a. v = PDict a"
  by (cases v) simp_all

lemma mko_PDict_left:
  "mapping_key_order_equiv (PDict a) w \<Longrightarrow> \<exists>b. w = PDict b"
  by (cases w) simp_all

lemma unique_keys_lookup:
  "unique_keys (PDict d) \<Longrightarrow> map_of d k = Some v \<Longrightarrow> unique_keys v"
  by (auto dest: map_of_SomeD)

lemma mko_canon:
  "unique_keys v \<Longrightarrow> unique_keys w \<Longrightarrow> mapping_key_order_equiv v w \<Longrightarrow> canon v = canon w"
proof (induction v arbitrary: w)
  case (PDict a)
  from PDict.prems(3) obtain b where w: "w = PDict b"
    using mko_PDict_left by blast
  from PDict.prems w have da: "distinct (map fst a)" and db: "distinct (map fst b)"
    and keys: "set (map fst a) = set (map fst b)"
    by simp_all
  let ?A = "sort_key fst a" and ?B = "sort_key fst b"
  have "sorted (map fst ?A)" "distinct (map fst ?A)" "set (map fst ?A) = set (map fst a)"
    using da by (simp_all add: distinct_map)
  moreover have "sorted (map fst ?B)" "distinct (map fst ?B)" "set (map fst ?B) = set (map fst b)"
    using db by (simp_all add: distinct_map)
  ultimately have fsts: "map fst ?A = map fst ?B"
    using keys by (intro sorted_distinct_set_unique) simp_all
  then have len: "length ?A = length ?B"
    by (rule map_eq_imp_length_eq)
  have "map (\<lambda>(k, v). (k, canon v)) ?A = map (\<lambda>(k, v). (k, canon v)) ?B"
  proof (rule nth_equalityI)
    show "length (map (\<lambda>(k, v). (k, canon v)) ?A) = length (map (\<lambda>(k, v). (k, canon v)) ?B)"
      using len by simp
  next
    fix i assume "i < length (map (\<lambda>(k, v). (k, canon v)) ?A)"
    then have i: "i < length ?A" "i < length ?B" using len by simp_all
    obtain k x where Ai: "?A ! i = (k, x)" by (cases "?A ! i")
    obtain k' y where Bi: "?B ! i = (k', y)" by (cases "?B ! i")
    from fsts i have "fst (?A ! i) = fst (?B ! i)"
      by (metis nth_map)
    with Ai Bi have kk: "k' = k" by simp
    from i Ai have xa: "(k, x) \<in> set a" by (metis nth_mem set_sort)
    from i Bi kk have yb: "(k, y) \<in> set b" by (metis nth_mem set_sort)
    from PDict.prems(3) w xa yb have "mapping_key_order_equiv x y" by fastforce
    moreover from PDict.prems(1) xa have "unique_keys x" by auto
    moreover from PDict.prems(2) w yb have "unique_keys y" by auto
    ultimately have "canon x = canon y"
      using PDict.IH [of "(k, x)" x y] xa by simp
    with i Ai Bi kk
    show "map (\<lambda>(k, v). (k, canon v)) ?A ! i = map (\<lambda>(k, v). (k, canon v)) ?B ! i"
      by simp
  qed
  then show ?case
    by (simp add: w canon_def sorted_dict_distinct [OF da] sorted_dict_distinct [OF db])
qed (simp_all add: canon_def)

lemma mko_metadata_name:
  assumes "unique_keys (PDict d1)" and "unique_keys (PDict d2)"
    and "mapping_key_order_equiv (PDict d1) (PDict d2)"
  shows "rel_option mapping_key_order_equiv (metadata_name d1) (metadata_name d2)"
proof -
  from assms have d: "distinct (map fst d1)" "distinct (map fst d2)" by simp_all
  have m: "rel_option mapping_key_order_equiv (map_of d1 ''metadata'') (map_of d2 ''metadata'')"
    by (rule mko_lookup [OF d assms(3)])
  show ?thesis
  proof (cases "map_of d1 ''metadata''")
    case None
    with m show ?thesis by (simp add: metadata_name_def)
  next
    case (Some v)
    with m obtain w where w: "map_of d2 ''metadata'' = Some w" and vw: "mapping_key_order_equiv v w"
      by (auto simp: option_rel_Some1)
    show ?thesis
    proof (cases "\<exists>a. v = PDict a")
      case True
      then obtain a where PDict: "v = PDict a" ..
      with vw obtain b where b: "w = PDict b" using mko_PDict_left by blast
      from unique_keys_lookup [OF assms(1) Some] PDict have "distinct (map fst a)" by simp
      moreover from unique_keys_lookup [OF assms(2) w] b have "distinct (map fst b)" by simp
      ultimately have "rel_option mapping_key_order_equiv (map_of a ''name'') (map_of b ''name'')"
        using vw PDict b by (intro mko_lookup) simp_all
      then show ?thesis by (simp add: metadata_name_def Some w PDict b)
    next
      case False
      with vw have "w = v" by (cases v) simp_all
      with False show ?thesis
        by (cases v) (simp_all add: metadata_name_def Some w)
    qed
  qed
qed

lemma mko_metadata_ok:
  assumes "unique_keys (PDict d1)" and "unique_keys (PDict d2)"
    and "mapping_key_order_equiv (PDict d1) (PDict d2)"
  shows "metadata_ok d1 \<longleftrightarrow> metadata_ok d2"
proof -
  from assms have d: "distinct (map fst d1)" "distinct (map fst d2)" by simp_all
  have m: "rel_option mapping_key_order_equiv (map_of d1 ''metadata'') (map_of d2 ''metadata'')"
    by (rule mko_lookup [OF d assms(3)])
  show ?thesis
  proof (cases "map_of d1 ''metadata''")
    case None
    with m show ?thesis by (simp add: metadata_ok_def)
  next
    case (Some v)
    with m obtain w where w: "map_of d2 ''metadata'' = Some w" and vw: "mapping_key_order_equiv v w"
      by (auto simp: option_rel_Some1)
    from vw show ?thesis
      by (cases v; cases w) (simp_all add: metadata_ok_def Some w)
  qed
qed

lemma mko_spec_field:
  assumes "unique_keys (PDict d1)" and "unique_keys (PDict d2)"
    and "mapping_key_order_equiv (PDict d1) (PDict d2)"
  shows "mapping_key_order_equiv (spec_field d1 key) (spec_field d2 key)"
proof -
  from assms have d: "distinct (map fst d1)" "distinct (map fst d2)" by simp_all
  have "rel_option mapping_key_order_equiv
          (if key = ''name'' then metadata_name d1 else map_of d1 key)
          (if key = ''name'' then metadata_name d2 else map_of d2 key)"
    using mko_metadata_name [OF assms] mko_lookup [OF d assms(3)] by simp
  then show ?thesis
    unfolding spec_field_def by (auto elim!: option.rel_cases)
qed

text \<open>
  C4, as the code has it. Two Documents that are equal except for the insertion order of
  the keys of mappings reached through mappings only (not of mappings inside sequences)
  get the same result from \<open>generate_hash\<close>: the same fingerprint, or the same exception.
\<close>

theorem generate_hash_key_order:
  assumes "unique_keys (PDict d1)" and "unique_keys (PDict d2)"
    and "mapping_key_order_equiv (PDict d1) (PDict d2)"
  shows "fst (generate_hash d1) = fst (generate_hash d2)"
proof (cases "metadata_ok d1")
  case False
  with mko_metadata_ok [OF assms] show ?thesis
    by (simp add: generate_hash_bad_metadata)
next
  case True
  with mko_metadata_ok [OF assms] have ok2: "metadata_ok d2" by simp
  from assms have d: "distinct (map fst d1)" "distinct (map fst d2)" by simp_all
  have f: "canon (spec_field d1 key) = canon (spec_field d2 key)" for key
    by (rule mko_canon [OF unique_keys_spec_field [OF assms(1)]
                          unique_keys_spec_field [OF assms(2)] mko_spec_field [OF assms]])
  have m: "marshal (sorted_dict (dict_set d1 ''name'' (spec_field d1 ''name''))) keys =
           marshal (sorted_dict (dict_set d2 ''name'' (spec_field d2 ''name''))) keys"
    if "distinct keys" for keys
    by (simp only: marshal_sorted_dict [OF d(1) that] marshal_sorted_dict [OF d(2) that] f)
  have k: "rel_option mapping_key_order_equiv (map_of d1 ''kind'') (map_of d2 ''kind'')"
    by (rule mko_lookup [OF d assms(3)])
  have kind: "k1 = PStr s \<longleftrightarrow> k2 = PStr s"
    if "map_of d1 ''kind'' = Some k1" and "map_of d2 ''kind'' = Some k2" for k1 k2 s
    using k that by (cases k1) (auto simp: mko_PStr)
  show ?thesis
  proof (cases "map_of d1 ''kind''")
    case None
    with k show ?thesis
      by (simp add: generate_hash_supported [OF True] generate_hash_supported [OF ok2])
  next
    case (Some k1)
    with k obtain k2 where k2: "map_of d2 ''kind'' = Some k2"
      by (auto simp: option_rel_Some1)
    from kind [OF Some k2] m [of "[''data'', ''kind'', ''name'']"]
         m [of "[''data'', ''kind'', ''name'', ''type'']"]
    show ?thesis
      by (simp add: generate_hash_supported [OF True] generate_hash_supported [OF ok2] Some k2)
  qed
qed

section \<open>Evaluating the fingerprint\<close>

lemma schedule_numeral:
  "schedule (numeral n) ws =
     schedule (pred_numeral n)
       (add32 (add32 (add32 (ssig1 (ws ! 1)) (ws ! 6)) (ssig0 (ws ! 14))) (ws ! 15) # ws)"
  by (simp add: numeral_eq_Suc)

lemma blocks_numeral:
  "blocks (numeral n) ws = take 16 ws # blocks (pred_numeral n) (drop 16 ws)"
  by (simp add: numeral_eq_Suc)

lemma blocks_one: "blocks 1 ws = [take 16 ws]"
  by simp

lemma replicate_numeral: "replicate (numeral n) x = x # replicate (pred_numeral n) x"
  by (simp add: numeral_eq_Suc)

lemma length_Cons_plus: "length (x # xs) = length xs + 1"
  by simp

lemmas sha256_eval =
  sha256_def split_blocks_def pad_def compress_def K256_def H256_def
  temp1_def temp2_def ch_def maj_def bsig0_def bsig1_def ssig0_def ssig1_def
  rotr_def shr_def not32_def add32_def hexdigest_def hex32_def hexdigit_def
  schedule_numeral blocks_numeral blocks_one replicate_numeral length_Cons_plus

lemmas generate_hash_eval =
  generate_hash_def marshal_def encode_def maketrans_def str_translate_def
  dict_get_def dict_getitem_def dict_del_def sorted_dict.simps
  dumps_str_def escape_char_def str_int_def str_nat.simps utf8_def

text \<open>The test vector of FIPS 180-4 for the message \<open>abc\<close>.\<close>

lemma sha256_abc:
  "hexdigest (sha256 (utf8 ''abc'')) =
     ''ba7816bf8f01cfea414140de5dae2223b00361a396177a9cb410ff61f20015ad''"
  by (simp add: sha256_eval utf8_def del: list.size(4))

text \<open>
  The fingerprint of \<open>{"kind": "ConfigMap", "metadata": {"name": "n"}, "data": {"k": "v"}}\<close>;
  the call leaves this Document as it was.
\<close>

lemma generate_hash_golden:
  "generate_hash [(''kind'', PStr ''ConfigMap''), (''metadata'', PDict [(''name'', PStr ''n'')]),
                  (''data'', PDict [(''k'', PStr ''v'')])] =
     (Inr ''c55cmkg5g6'',
      [(''kind'', PStr ''ConfigMap''), (''metadata'', PDict [(''name'', PStr ''n'')]),
       (''data'', PDict [(''k'', PStr ''v'')])])"
  by (simp add: generate_hash_eval sha256_eval del: list.size(4))

lemma generate_hash_list_ab:
  "fst (generate_hash [(''kind'', PStr ''ConfigMap''),
          (''data'', PDict [(''k'', PList [PDict [(''a'', PInt 1), (''b'', PInt 2)]])])]) =
     Inr ''7gm828mm2g''"
  by (simp add: generate_hash_eval sha256_eval del: list.size(4))

lemma generate_hash_list_ba:
  "fst (generate_hash [(''kind'', PStr ''ConfigMap''),
          (''data'', PDict [(''k'', PList [PDict [(''b'', PInt 2), (''a'', PInt 1)]])])]) =
     Inr ''k7fkc6fd6d''"
  by (simp add: generate_hash_eval sha256_eval del: list.size(4))

section \<open>Instances and counterexamples\<close>

theorem generate_hash_fingerprint_witness:
  "unique_keys (PDict [(''kind'', PStr ''ConfigMap''), (''metadata'', PDict [(''name'', PStr ''n'')]),
                       (''data'', PDict [(''k'', PStr ''v'')])]) \<and>
   metadata_ok [(''kind'', PStr ''ConfigMap''), (''metadata'', PDict [(''name'', PStr ''n'')]),
                (''data'', PDict [(''k'', PStr ''v'')])] \<and>
   fst (generate_hash [(''kind'', PStr ''ConfigMap''), (''metadata'', PDict [(''name'', PStr ''n'')]),
                       (''data'', PDict [(''k'', PStr ''v'')])]) =
     Inr (spec_fingerprint [''data'', ''kind'', ''name'']
            [(''kind'', PStr ''ConfigMap''), (''metadata'', PDict [(''name'', PStr ''n'')]),
             (''data'', PDict [(''k'', PStr ''v'')])]) \<and>
   length (spec_fingerprint [''data'', ''kind'', ''name'']
            [(''kind'', PStr ''ConfigMap''), (''metadata'', PDict [(''name'', PStr ''n'')]),
             (''data'', PDict [(''k'', PStr ''v'')])]) = 10"
  using generate_hash_fingerprint
          [of "[(''kind'', PStr ''ConfigMap''), (''metadata'', PDict [(''name'', PStr ''n'')]),
                (''data'', PDict [(''k'', PStr ''v'')])]"
              "[''data'', ''kind'', ''name'']"]
  by (simp add: metadata_ok_def)

text \<open>
  The claim C2 as stated, for every Document of kind \<open>ConfigMap\<close>, fails on
  \<open>{"kind": "ConfigMap", "metadata": None}\<close>: the specification's fingerprint takes the
  name as empty, the code raises \<open>AttributeError\<close>.
\<close>

theorem generate_hash_fingerprint_counterexample:
  "map_of [(''kind'', PStr ''ConfigMap''), (''metadata'', PNone)] ''kind''
     = Some (PStr ''ConfigMap'') \<and>
   fst (generate_hash [(''kind'', PStr ''ConfigMap''), (''metadata'', PNone)])
     = Inl AttributeError \<and>
   fst (generate_hash [(''kind'', PStr ''ConfigMap''), (''metadata'', PNone)])
     \<noteq> Inr (spec_fingerprint [''data'', ''kind'', ''name'']
              [(''kind'', PStr ''ConfigMap''), (''metadata'', PNone)])"
  by (simp add: generate_hash_bad_metadata metadata_ok_def)

theorem generate_hash_noninterference_witness:
  "distinct (map fst [(''apiVersion'', PStr ''v1''), (''kind'', PStr ''Secret''),
                      (''data'', PDict [(''k'', PStr ''v'')])]) \<and>
   distinct (map fst [(''kind'', PStr ''Secret''), (''data'', PDict [(''k'', PStr ''v'')]),
                      (''immutable'', PBool True), (''name'', PStr ''x'')]) \<and>
   fst (generate_hash [(''apiVersion'', PStr ''v1''), (''kind'', PStr ''Secret''),
                       (''data'', PDict [(''k'', PStr ''v'')])]) =
   fst (generate_hash [(''kind'', PStr ''Secret''), (''data'', PDict [(''k'', PStr ''v'')]),
                       (''immutable'', PBool True), (''name'', PStr ''x'')])"
  using generate_hash_noninterference
          [of "[(''apiVersion'', PStr ''v1''), (''kind'', PStr ''Secret''),
                (''data'', PDict [(''k'', PStr ''v'')])]"
              "[(''kind'', PStr ''Secret''), (''data'', PDict [(''k'', PStr ''v'')]),
                (''immutable'', PBool True), (''name'', PStr ''x'')]"]
  by (simp add: metadata_ok_def metadata_name_def)

text \<open>
  The claim C5 as stated fails on \<open>{"kind": "ConfigMap", "metadata": None}\<close> and
  \<open>{"kind": "ConfigMap"}\<close>: they agree on \<open>data\<close>, \<open>kind\<close>, \<open>type\<close> and
  \<open>metadata.name\<close> (absent in both), yet the first call raises \<open>AttributeError\<close> and the
  second returns a fingerprint.
\<close>

theorem generate_hash_noninterference_counterexample:
  "map_of [(''kind'', PStr ''ConfigMap''), (''metadata'', PNone)] ''data''
     = map_of [(''kind'', PStr ''ConfigMap'')] ''data'' \<and>
   map_of [(''kind'', PStr ''ConfigMap''), (''metadata'', PNone)] ''kind''
     = map_of [(''kind'', PStr ''ConfigMap'')] ''kind'' \<and>
   map_of [(''kind'', PStr ''ConfigMap''), (''metadata'', PNone)] ''type''
     = map_of [(''kind'', PStr ''ConfigMap'')] ''type'' \<and>
   metadata_name [(''kind'', PStr ''ConfigMap''), (''metadata'', PNone)]
     = metadata_name [(''kind'', PStr ''ConfigMap'')] \<and>
   fst (generate_hash [(''kind'', PStr ''ConfigMap''), (''metadata'', PNone)]) = Inl AttributeError \<and>
   fst (generate_hash [(''kind'', PStr ''ConfigMap''), (''metadata'', PNone)])
     \<noteq> fst (generate_hash [(''kind'', PStr ''ConfigMap'')])"
  by (simp add: generate_hash_bad_metadata generate_hash_supported metadata_ok_def metadata_name_def)

theorem generate_hash_key_order_witness:
  "unique_keys (PDict [(''kind'', PStr ''ConfigMap''),
                       (''data'', PDict [(''a'', PStr ''1''), (''b'', PStr ''2'')])]) \<and>
   unique_keys (PDict [(''data'', PDict [(''b'', PStr ''2''), (''a'', PStr ''1'')]),
                       (''kind'', PStr ''ConfigMap'')]) \<and>
   mapping_key_order_equiv
     (PDict [(''kind'', PStr ''ConfigMap''),
             (''data'', PDict [(''a'', PStr ''1''), (''b'', PStr ''2'')])])
     (PDict [(''data'', PDict [(''b'', PStr ''2''), (''a'', PStr ''1'')]),
             (''kind'', PStr ''ConfigMap'')]) \<and>
   fst (generate_hash [(''kind'', PStr ''ConfigMap''),
                       (''data'', PDict [(''a'', PStr ''1''), (''b'', PStr ''2'')])]) =
   fst (generate_hash [(''data'', PDict [(''b'', PStr ''2''), (''a'', PStr ''1'')]),
                       (''kind'', PStr ''ConfigMap'')])"
  using generate_hash_key_order
          [of "[(''kind'', PStr ''ConfigMap''),
                (''data'', PDict [(''a'', PStr ''1''), (''b'', PStr ''2'')])]"
              "[(''data'', PDict [(''b'', PStr ''2''), (''a'', PStr ''1'')]),
                (''kind'', PStr ''ConfigMap'')]"]
  by (simp add: insert_commute)

text \<open>
  The claim C4 as stated, with the mappings inside sequences, fails on
  \<open>{"kind": "ConfigMap", "data": {"k": [{"a": 1, "b": 2}]}}\<close> and
  \<open>{"kind": "ConfigMap", "data": {"k": [{"b": 2, "a": 1}]}}\<close>: \<open>sorted_dict\<close> does not
  enter the list, the two serializations differ and so do the fingerprints.
\<close>

theorem generate_hash_key_order_counterexample:
  "key_order_equiv
     (PDict [(''kind'', PStr ''ConfigMap''),
             (''data'', PDict [(''k'', PList [PDict [(''a'', PInt 1), (''b'', PInt 2)]])])])
     (PDict [(''kind'', PStr ''ConfigMap''),
             (''data'', PDict [(''k'', PList [PDict [(''b'', PInt 2), (''a'', PInt 1)]])])]) \<and>
   fst (generate_hash [(''kind'', PStr ''ConfigMap''),
          (''data'', PDict [(''k'', PList [PDict [(''a'', PInt 1), (''b'', PInt 2)]])])])
   \<noteq> fst (generate_hash [(''kind'', PStr ''ConfigMap''),
          (''data'', PDict [(''k'', PList [PDict [(''b'', PInt 2), (''a'', PInt 1)]])])])"
  using generate_hash_list_ab generate_hash_list_ba by (simp add: insert_commute)

section \<open>The structural differ is reflexive\<close>

lemma fold_fixed: "(\<And>k. f k z = z) \<Longrightarrow> fold f ks z = z"
  by (induction ks) simp_all

lemma diff_rec_same: "diff_rec d d = ([], [])"
proof (induction d rule: measure_induct_rule [of "size_list (size_prod (\<lambda>_. 0) size)"])
  case (less d)
  have sz: "(k, PDict b) \<in> set xs \<Longrightarrow>
        size_list (size_prod (\<lambda>_. 0) size) b < size_list (size_prod (\<lambda>_. 0) size) xs"
    for xs :: pydict and k b
    by (induction xs) auto
  have sub: "diff_rec b b = ([], [])" if "map_of d k = Some (PDict b)" for k b
    using less.IH [of b] sz [OF map_of_SomeD [OF that]] by simp
  show ?case
    by (subst diff_rec.simps, rule fold_fixed)
       (auto simp: diff_leaf_def diff_nested_def sub split: option.splits pyval.splits)
qed

text \<open>The two examples of section 8 of the specification.\<close>

lemma diff_objects_minimal:
  "diff_objects [(''a'', PInt 1), (''b'', PDict [(''x'', PInt 1), (''y'', PInt 2)])]
                [(''a'', PInt 1), (''b'', PDict [(''x'', PInt 1), (''y'', PInt 3)])] =
     (False, [(''before'', PDict [(''b'', PDict [(''y'', PInt 2)])]),
              (''after'', PDict [(''b'', PDict [(''y'', PInt 3)])])])"
  by (simp add: diff_objects_def diff_rec.simps diff_leaf_def diff_nested_def)

lemma diff_objects_added_key:
  "diff_objects [(''a'', PInt 1)] [(''a'', PInt 1), (''c'', PInt 2)] =
     (False, [(''before'', PDict []), (''after'', PDict [(''c'', PInt 2)])])"
  by (simp add: diff_objects_def diff_rec.simps diff_leaf_def diff_nested_def)

text \<open>
  C8. The differ is reflexive: for every Document \<open>D\<close>, \<open>diff_objects D D\<close> is
  \<open>matches = True\<close> with an empty delta, one that has no \<open>before\<close> and no \<open>after\<close> key.
\<close>

theorem diff_objects_reflexive: "diff_objects d d = (True, [])"
  by (simp add: diff_objects_def diff_rec_same)

text \<open>The unit test \<open>test_diff_objects_no_diff\<close>.\<close>

theorem diff_objects_reflexive_witness: "diff_objects pod_definition pod_definition = (True, [])"
  using diff_objects_reflexive [of pod_definition] .

section \<open>sorted_dict on the heap leaves its argument alone\<close>

lemma unchanged_refl: "unchanged h h"
  by (simp add: unchanged_def)

lemma unchanged_trans: "unchanged h1 h2 \<Longrightarrow> unchanged h2 h3 \<Longrightarrow> unchanged h1 h3"
proof -
  assume a: "unchanged h1 h2" and b: "unchanged h2 h3"
  then have len: "length h1 \<le> length h2" "length h2 \<le> length h3"
    by (simp_all add: unchanged_def)
  have "take (length h1) h3 = take (length h1) (take (length h2) h3)"
    using len by (simp add: min_def)
  also have "\<dots> = h1"
    using a b by (simp add: unchanged_def)
  finally show ?thesis using len by (simp add: unchanged_def)
qed

lemma unchanged_append: "unchanged h (h @ xs)"
  by (simp add: unchanged_def)

lemma unchanged_nth: "unchanged h h' \<Longrightarrow> a < length h \<Longrightarrow> h' ! a = h ! a"
  by (metis nth_take unchanged_def)

lemma unchanged_obj_at: "unchanged h h' \<Longrightarrow> a < length h \<Longrightarrow> obj_at h' a = obj_at h a"
  by (simp add: obj_at_def unchanged_nth) (simp add: unchanged_def)

lemma unchanged_dict_ref:
  "unchanged h h' \<Longrightarrow> valid_val (length h) v \<Longrightarrow> dict_ref h' v = dict_ref h v"
  by (cases v) (simp_all add: dict_ref_def valid_val_def unchanged_obj_at)

lemma unchanged_split: "unchanged h h' \<Longrightarrow> h' = h @ drop (length h) h'"
  by (metis append_take_drop_id unchanged_def)

lemma dict_ref_Some: "dict_ref h v = Some b \<Longrightarrow> v = HRef b \<and> b < length h"
  by (auto simp: dict_ref_def obj_at_def split: hval.splits option.splits hobj.splits if_splits)

lemma closed_heap_values:
  "closed_heap h \<Longrightarrow> obj_at h a = Some ob \<Longrightarrow> v \<in> set (values_of ob) \<Longrightarrow>
   valid_val (length h) v"
  by (auto simp: closed_heap_def obj_at_def split: if_splits)

lemma nested_depth_unchanged:
  "closed_heap h \<Longrightarrow> unchanged h h' \<Longrightarrow> nested_depth n h a \<Longrightarrow> nested_depth n h' a"
proof (induction n arbitrary: a)
  case 0
  then show ?case by simp
next
  case (Suc n)
  from Suc.prems(3) obtain items where ob: "obj_at h a = Some (HDict items)"
    and sub: "\<forall>kv \<in> set items.
                case dict_ref h (snd kv) of None \<Rightarrow> True | Some b \<Rightarrow> nested_depth n h b"
    by (auto split: option.splits hobj.splits)
  from ob have a: "a < length h" by (simp add: obj_at_def split: if_splits)
  have ob': "obj_at h' a = Some (HDict items)"
    using unchanged_obj_at [OF Suc.prems(2) a] ob by simp
  have "case dict_ref h' (snd kv) of None \<Rightarrow> True | Some b \<Rightarrow> nested_depth n h' b"
    if "kv \<in> set items" for kv
  proof -
    from that have "valid_val (length h) (snd kv)"
      using closed_heap_values [OF Suc.prems(1) ob] by simp
    then have "dict_ref h' (snd kv) = dict_ref h (snd kv)"
      by (rule unchanged_dict_ref [OF Suc.prems(2)])
    with sub that Suc.IH [OF Suc.prems(1,2)] show ?thesis
      by (auto split: option.splits)
  qed
  with ob' show ?case by simp
qed

lemma set_dict_set: "set (dict_set d k v) \<subseteq> insert (k, v) (set d)"
  by (induction d) (auto split: if_splits)

lemma values_dict_set: "set (map snd (dict_set d k v)) \<subseteq> insert v (set (map snd d))"
  using set_dict_set [of d k v] by force

lemma valid_val_mono: "valid_val n v \<Longrightarrow> n \<le> m \<Longrightarrow> valid_val m v"
  by (cases v) (simp_all add: valid_val_def)


lemma built_fresh_trans:
  assumes "unchanged h0 h" and "unchanged h h2" and "built_fresh h0 h" and "built_fresh h h2"
  shows "built_fresh h0 h2"
proof -
  from assms(1) have len: "length h0 \<le> length h" by (simp add: unchanged_def)
  have "drop (length h0) h2 = drop (length h0) (h @ drop (length h) h2)"
    using unchanged_split [OF assms(2)] by simp
  also have "\<dots> = drop (length h0) h @ drop (length h) h2"
    using len by simp
  finally have split: "drop (length h0) h2 = drop (length h0) h @ drop (length h) h2" .
  have later: "length h0 \<le> c \<or> dict_ref h0 (HRef c) = None"
    if "length h \<le> c \<or> dict_ref h (HRef c) = None" for c
  proof (cases "c < length h0")
    case True
    then have "dict_ref h (HRef c) = dict_ref h0 (HRef c)"
      by (intro unchanged_dict_ref [OF assms(1)]) (simp add: valid_val_def)
    with that True len show ?thesis by simp
  next
    case False
    then show ?thesis by simp
  qed
  show ?thesis
    unfolding built_fresh_def split
  proof
    fix ob assume "ob \<in> set (drop (length h0) h @ drop (length h) h2)"
    then consider "ob \<in> set (drop (length h0) h)" | "ob \<in> set (drop (length h) h2)"
      by auto
    then show "case ob of HList xs \<Rightarrow> False
       | HDict items \<Rightarrow>
           (\<forall>v \<in> set (map snd items).
              (case v of HRef c \<Rightarrow> length h0 \<le> c \<or> dict_ref h0 v = None | _ \<Rightarrow> True))"
    proof cases
      case 1
      with assms(3) show ?thesis by (simp add: built_fresh_def)
    next
      case 2
      with assms(4) have "case ob of HList xs \<Rightarrow> False
       | HDict items \<Rightarrow>
           (\<forall>v \<in> set (map snd items).
              (case v of HRef c \<Rightarrow> length h \<le> c \<or> dict_ref h v = None | _ \<Rightarrow> True))"
        by (simp add: built_fresh_def)
      then show ?thesis
        using later by (auto split: hobj.splits hval.splits)
    qed
  qed
qed

lemma store_item_dict:
  "obj_at h r = Some (HDict acc) \<Longrightarrow> store_item h r k v = h[r := HDict (dict_set acc k v)]"
  by (simp add: store_item_def)

lemma store_item_unchanged:
  assumes "unchanged h0 h" and "length h0 \<le> r"
  shows "unchanged h0 (store_item h r k v)"
  using assms by (auto simp: store_item_def unchanged_def split: option.splits hobj.splits)

lemma store_item_dict_ref:
  assumes "dict_ref h (HRef r) = Some r"
  shows "dict_ref (store_item h r k v) (HRef r) = Some r"
  using assms
  by (auto simp: store_item_def dict_ref_def obj_at_def split: option.splits hobj.splits if_splits)

lemma store_item_closed:
  assumes "closed_heap h" and "valid_val (length h) v"
  shows "closed_heap (store_item h r k v)"
proof (cases "obj_at h r")
  case None
  with assms(1) show ?thesis by (simp add: store_item_def)
next
  case (Some ob)
  show ?thesis
  proof (cases ob)
    case (HList xs)
    with Some assms(1) show ?thesis by (simp add: store_item_def)
  next
    case (HDict acc)
    have old: "valid_val (length h) w" if "w \<in> set (map snd acc)" for w
      using closed_heap_values [OF assms(1) Some [unfolded HDict]] that by simp
    have new: "valid_val (length h) w" if "w \<in> set (map snd (dict_set acc k v))" for w
      using that values_dict_set [of acc k v] old assms(2) by auto
    have "set (h[r := HDict (dict_set acc k v)]) \<subseteq> insert (HDict (dict_set acc k v)) (set h)"
      by (rule set_update_subset_insert)
    with assms(1) new show ?thesis
      unfolding store_item_dict [OF Some [unfolded HDict]] closed_heap_def
      by (auto simp del: set_map)
  qed
qed

lemma store_item_built_fresh:
  assumes "built_fresh h0 h" and "length h0 \<le> r"
    and "case v of HRef c \<Rightarrow> length h0 \<le> c \<or> dict_ref h0 v = None | _ \<Rightarrow> True"
  shows "built_fresh h0 (store_item h r k v)"
proof (cases "obj_at h r")
  case None
  with assms(1) show ?thesis by (simp add: store_item_def)
next
  case (Some ob)
  show ?thesis
  proof (cases ob)
    case (HList xs)
    with Some assms(1) show ?thesis by (simp add: store_item_def)
  next
    case (HDict acc)
    from Some have r: "r < length h" and hr: "h ! r = HDict acc"
      by (simp_all add: obj_at_def HDict split: if_splits)
    have "drop (length h0) h ! (r - length h0) = h ! r"
      using assms(2) r by simp
    moreover have "r - length h0 < length (drop (length h0) h)"
      using assms(2) r by simp
    ultimately have "HDict acc \<in> set (drop (length h0) h)"
      using hr by (metis nth_mem)
    with assms(1) have old: "case w of HRef c \<Rightarrow> length h0 \<le> c \<or> dict_ref h0 w = None | _ \<Rightarrow> True"
      if "w \<in> set (map snd acc)" for w
      using that unfolding built_fresh_def by fastforce
    have new: "case w of HRef c \<Rightarrow> length h0 \<le> c \<or> dict_ref h0 w = None | _ \<Rightarrow> True"
      if "w \<in> set (map snd (dict_set acc k v))" for w
      using that values_dict_set [of acc k v] old assms(3) by auto
    have "drop (length h0) (h[r := HDict (dict_set acc k v)]) =
          (drop (length h0) h)[r - length h0 := HDict (dict_set acc k v)]"
      using assms(2) by (simp add: drop_update_swap)
    moreover have "set ((drop (length h0) h)[r - length h0 := HDict (dict_set acc k v)])
          \<subseteq> insert (HDict (dict_set acc k v)) (set (drop (length h0) h))"
      by (rule set_update_subset_insert)
    ultimately show ?thesis
      using assms(1) new
      unfolding store_item_dict [OF Some [unfolded HDict]] built_fresh_def
      by (auto simp del: set_map)
  qed
qed


lemma sorted_dict_loop_fresh:
  assumes IH: "\<And>h b. closed_heap h \<Longrightarrow> nested_depth n h b \<Longrightarrow>
                    returns_fresh h (sorted_dict_heap n h b)"
    and h0: "closed_heap h0" and r: "length h0 \<le> r"
  shows "loop_ok h0 r h \<Longrightarrow>
         \<forall>kv \<in> set xs. valid_val (length h0) (snd kv) \<and>
            (case dict_ref h0 (snd kv) of None \<Rightarrow> True | Some b \<Rightarrow> nested_depth n h0 b) \<Longrightarrow>
         \<exists>h'. sorted_dict_loop n xs r h = Some (Inr (r, h')) \<and> loop_ok h0 r h'"
proof (induction xs arbitrary: h)
  case Nil
  then show ?case by simp
next
  case (Cons x xs)
  obtain k v where x: "x = (k, v)" by (cases x)
  from Cons.prems(1) have cl: "closed_heap h" and un: "unchanged h0 h"
    and bf: "built_fresh h0 h" and rr: "dict_ref h (HRef r) = Some r"
    by (simp_all add: loop_ok_def)
  from Cons.prems(2) have vv: "valid_val (length h0) v"
    and dv: "case dict_ref h0 v of None \<Rightarrow> True | Some b \<Rightarrow> nested_depth n h0 b"
    and rest: "\<forall>kv \<in> set xs. valid_val (length h0) (snd kv) \<and>
            (case dict_ref h0 (snd kv) of None \<Rightarrow> True | Some b \<Rightarrow> nested_depth n h0 b)"
    by (simp_all add: x)
  from un have len: "length h0 \<le> length h" by (simp add: unchanged_def)
  have same: "dict_ref h v = dict_ref h0 v"
    by (rule unchanged_dict_ref [OF un vv])
  show ?case
  proof (cases "dict_ref h v")
    case None
    have shared: "case v of HRef c \<Rightarrow> length h0 \<le> c \<or> dict_ref h0 v = None | _ \<Rightarrow> True"
      using None same by (auto split: hval.splits)
    have "loop_ok h0 r (store_item h r k v)"
      unfolding loop_ok_def
      using store_item_closed [OF cl valid_val_mono [OF vv len]]
            store_item_unchanged [OF un r] store_item_built_fresh [OF bf r shared]
            store_item_dict_ref [OF rr]
      by simp
    from Cons.IH [OF this rest] None show ?thesis
      by (simp add: x)
  next
    case (Some b)
    with same have "dict_ref h0 v = Some b" by simp
    with dv have "nested_depth n h0 b" by simp
    then have "nested_depth n h b"
      by (rule nested_depth_unchanged [OF h0 un])
    from IH [OF cl this] obtain b' h2 where run: "sorted_dict_heap n h b = Some (Inr (b', h2))"
      and un2: "unchanged h h2" and new: "length h \<le> b'"
      and bd: "dict_ref h2 (HRef b') = Some b'" and bf2: "built_fresh h h2" and cl2: "closed_heap h2"
      by (auto simp: returns_fresh_def split: option.splits sum.splits)
    from rr have rlen: "r < length h"
      using dict_ref_Some by blast
    have rr2: "dict_ref h2 (HRef r) = Some r"
      using unchanged_dict_ref [OF un2, of "HRef r"] rlen rr by (simp add: valid_val_def)
    have vb: "valid_val (length h2) (HRef b')"
      using dict_ref_Some [OF bd] by (simp add: valid_val_def)
    have fresh: "case HRef b' of HRef c \<Rightarrow> length h0 \<le> c \<or> dict_ref h0 (HRef b') = None | _ \<Rightarrow> True"
      using new len by simp
    have "loop_ok h0 r (store_item h2 r k (HRef b'))"
      unfolding loop_ok_def
      using store_item_closed [OF cl2 vb]
            store_item_unchanged [OF unchanged_trans [OF un un2] r]
            store_item_built_fresh [OF built_fresh_trans [OF un un2 bf bf2] r fresh]
            store_item_dict_ref [OF rr2]
      by simp
    from Cons.IH [OF this rest] Some run show ?thesis
      by (simp add: x)
  qed
qed

lemma closed_heap_alloc: "closed_heap h \<Longrightarrow> closed_heap (h @ [HDict []])"
proof -
  assume "closed_heap h"
  then have "valid_val (Suc (length h)) v" if "ob \<in> set h" and "v \<in> set (values_of ob)" for ob v
    using that valid_val_mono [of "length h" v "Suc (length h)"] by (auto simp: closed_heap_def)
  then show ?thesis by (auto simp: closed_heap_def)
qed

lemma sorted_dict_heap_fresh:
  "closed_heap h \<Longrightarrow> nested_depth n h a \<Longrightarrow> returns_fresh h (sorted_dict_heap n h a)"
proof (induction n arbitrary: h a)
  case 0
  then show ?case by simp
next
  case (Suc n)
  from Suc.prems(2) obtain items where ob: "obj_at h a = Some (HDict items)"
    and sub: "\<forall>kv \<in> set items.
                case dict_ref h (snd kv) of None \<Rightarrow> True | Some b \<Rightarrow> nested_depth n h b"
    by (auto split: option.splits hobj.splits)
  have start: "loop_ok h (length h) (h @ [HDict []])"
    using closed_heap_alloc [OF Suc.prems(1)]
    by (simp add: loop_ok_def unchanged_append built_fresh_def dict_ref_def obj_at_def)
  have items: "\<forall>kv \<in> set (sort_key fst items). valid_val (length h) (snd kv) \<and>
            (case dict_ref h (snd kv) of None \<Rightarrow> True | Some b \<Rightarrow> nested_depth n h b)"
    using sub closed_heap_values [OF Suc.prems(1) ob] by simp
  from sorted_dict_loop_fresh [OF Suc.IH Suc.prems(1) order_refl start items]
  obtain h' where run: "sorted_dict_loop n (sort_key fst items) (length h) (h @ [HDict []])
                          = Some (Inr (length h, h'))"
    and ok: "loop_ok h (length h) h'"
    by blast
  then show ?case
    by (simp add: ob returns_fresh_def loop_ok_def)
qed


lemma sorted_dict_heap_example:
  "sorted_dict_heap (Suc (Suc 0)) example_heap 0 =
     Some (Inr (3, example_heap @
       [HDict [(''a'', HRef 2), (''b'', HRef 4), (''c'', HInt 1)],
        HDict [(''y'', HStr ''s''), (''z'', HNone)]]))"
  by (simp add: example_heap_def obj_at_def dict_ref_def store_item_def)

lemma sorted_dict_heap_fresh_example:
  "closed_heap example_heap \<and> nested_depth (Suc (Suc 0)) example_heap 0 \<and>
   returns_fresh example_heap (sorted_dict_heap (Suc (Suc 0)) example_heap 0)"
  using sorted_dict_heap_fresh [of example_heap "Suc (Suc 0)" 0]
  by (simp add: example_heap_def closed_heap_def valid_val_def obj_at_def dict_ref_def)

section \<open>sorted_dict on the heap computes sorted_dict\<close>

lemma reads_as_transfer:
  "reads_as A h v t \<Longrightarrow> A \<subseteq> B \<Longrightarrow>
   (\<And>c. c \<in> A \<Longrightarrow> c < length h \<Longrightarrow> obj_at h' c = obj_at h c) \<Longrightarrow>
   reads_as B h' v t"
proof (induction t arbitrary: v)
  case (PList ts)
  from PList.prems(1) obtain a vs where v: "v = HRef a" and a: "a \<in> A"
    and ob: "obj_at h a = Some (HList vs)" and all: "list_all2 (reads_as A h) vs ts"
    by (auto split: hval.splits option.splits hobj.splits)
  from ob have "a < length h" by (simp add: obj_at_def split: if_splits)
  with PList.prems(3) a ob have ob': "obj_at h' a = Some (HList vs)" by simp
  have "list_all2 (reads_as B h') vs ts"
    using all
  proof (rule list.rel_mono_strong)
    fix x y assume "y \<in> set ts" and "reads_as A h x y"
    then show "reads_as B h' x y"
      using PList.IH PList.prems(2,3) by blast
  qed
  with v a ob' PList.prems(2) show ?case by auto
next
  case (PDict d)
  from PDict.prems(1) obtain a items where v: "v = HRef a" and a: "a \<in> A"
    and ob: "obj_at h a = Some (HDict items)"
    and all: "list_all2 (\<lambda>kv kt. fst kv = fst kt \<and> reads_as A h (snd kv) (snd kt)) items d"
    by (auto split: hval.splits option.splits hobj.splits)
  from ob have "a < length h" by (simp add: obj_at_def split: if_splits)
  with PDict.prems(3) a ob have ob': "obj_at h' a = Some (HDict items)" by simp
  have "list_all2 (\<lambda>kv kt. fst kv = fst kt \<and> reads_as B h' (snd kv) (snd kt)) items d"
    using all
  proof (rule list.rel_mono_strong)
    fix x y assume y: "y \<in> set d" and xy: "fst x = fst y \<and> reads_as A h (snd x) (snd y)"
    obtain k t where kt: "y = (k, t)" by (cases y)
    have "reads_as B h' (snd x) t"
    proof (rule PDict.IH [of "(k, t)" t "snd x"])
      show "(k, t) \<in> set d" using y kt by simp
      show "t \<in> Basic_BNFs.snds (k, t)" by simp
      show "reads_as A h (snd x) t" using xy kt by simp
      show "A \<subseteq> B" by (rule PDict.prems(2))
      show "\<And>c. c \<in> A \<Longrightarrow> c < length h \<Longrightarrow> obj_at h' c = obj_at h c"
        by (rule PDict.prems(3))
    qed
    with xy kt show "fst x = fst y \<and> reads_as B h' (snd x) (snd y)" by simp
  qed
  with v a ob' PDict.prems(2) show ?case by auto
qed simp_all

lemma reads_as_dict_ref:
  "reads_as A h v t \<Longrightarrow> (dict_ref h v = None) = (\<forall>d. t \<noteq> PDict d)"
  by (cases t) (auto simp: dict_ref_def split: hval.splits option.splits hobj.splits)

lemma rel_insort:
  assumes keys: "\<And>x y. R x y \<Longrightarrow> fst x = fst y"
  shows "list_all2 R xs ys \<Longrightarrow> R x y \<Longrightarrow>
         list_all2 R (insort_key fst x xs) (insort_key fst y ys)"
proof (induction xs ys rule: list_all2_induct)
  case Nil
  then show ?case by simp
next
  case (Cons a xs b ys)
  with keys [of a b] keys [of x y] show ?case by auto
qed

lemma rel_sort_key:
  assumes keys: "\<And>x y. R x y \<Longrightarrow> fst x = fst y"
  shows "list_all2 R xs ys \<Longrightarrow> list_all2 R (sort_key fst xs) (sort_key fst ys)"
proof (induction xs ys rule: list_all2_induct)
  case Nil
  then show ?case by simp
next
  case (Cons a xs b ys)
  then show ?case by (simp add: rel_insort [of R, OF keys])
qed

lemma rel_dict_set:
  assumes keys: "\<And>x y. R x y \<Longrightarrow> fst x = fst y"
  shows "list_all2 R acc acct \<Longrightarrow> R (k, v) (k, t) \<Longrightarrow>
         list_all2 R (dict_set acc k v) (dict_set acct k t)"
proof (induction acc acct rule: list_all2_induct)
  case Nil
  then show ?case by simp
next
  case (Cons a xs b ys)
  with keys [of a b] show ?case by (cases a; cases b) auto
qed

lemma nested_depth_mono: "nested_depth n h a \<Longrightarrow> n \<le> m \<Longrightarrow> nested_depth m h a"
proof (induction n arbitrary: m a)
  case 0
  then show ?case by simp
next
  case (Suc n)
  then obtain m' where m: "m = Suc m'" and le: "n \<le> m'"
    by (cases m) simp_all
  from Suc.prems(1) Suc.IH [OF _ le] show ?case
    unfolding m by (auto split: option.splits hobj.splits)
qed

lemma fold_max_ge_acc: "acc \<le> fold max xs (acc :: nat)"
proof (induction xs arbitrary: acc)
  case Nil
  show ?case by simp
next
  case (Cons x xs)
  have "acc \<le> max x acc" by simp
  also have "\<dots> \<le> fold max xs (max x acc)" by (rule Cons.IH)
  finally show ?case by simp
qed

lemma fold_max_ge_mem: "x \<in> set xs \<Longrightarrow> x \<le> fold max xs (acc :: nat)"
proof (induction xs arbitrary: acc)
  case Nil
  then show ?case by simp
next
  case (Cons y ys)
  show ?case
  proof (cases "x = y")
    case True
    have "x \<le> max y acc" using True by simp
    also have "\<dots> \<le> fold max ys (max y acc)" by (rule fold_max_ge_acc)
    finally show ?thesis by simp
  next
    case False
    with Cons.prems have "x \<in> set ys" by simp
    from Cons.IH [OF this] show ?thesis by simp
  qed
qed

lemma depth_value: "(k, t) \<in> set d \<Longrightarrow> depth t \<le> fold max (map (\<lambda>kv. depth (snd kv)) d) 0"
proof -
  assume "(k, t) \<in> set d"
  then have "depth (snd (k, t)) \<in> (\<lambda>kv. depth (snd kv)) ` set d"
    by (rule imageI)
  then have "depth t \<in> set (map (\<lambda>kv. depth (snd kv)) d)" by simp
  then show ?thesis by (rule fold_max_ge_mem)
qed

lemma reads_as_nested_depth:
  "reads_as A h v t \<Longrightarrow> dict_ref h v = Some a \<Longrightarrow> nested_depth (depth t) h a"
proof (induction t arbitrary: v a)
  case (PDict d)
  from PDict.prems obtain items where v: "v = HRef a"
    and ob: "obj_at h a = Some (HDict items)"
    and all: "list_all2 (\<lambda>kv kt. fst kv = fst kt \<and> reads_as A h (snd kv) (snd kt)) items d"
    by (auto simp: dict_ref_def split: hval.splits option.splits hobj.splits)
  let ?m = "fold max (map (\<lambda>kv. depth (snd kv)) d) 0"
  have "case dict_ref h (snd kv) of None \<Rightarrow> True | Some b \<Rightarrow> nested_depth ?m h b"
    if "kv \<in> set items" for kv
  proof (cases "dict_ref h (snd kv)")
    case None
    then show ?thesis by simp
  next
    case (Some b)
    from that obtain i where i: "i < length items" and kv: "items ! i = kv"
      by (auto simp: in_set_conv_nth)
    from all have len: "length items = length d"
      by (rule list_all2_lengthD)
    obtain k t where kt: "d ! i = (k, t)" by (cases "d ! i")
    from list_all2_nthD [OF all i] kv kt have r: "reads_as A h (snd kv) t" by simp
    from i len kt have mem: "(k, t) \<in> set d" by (metis nth_mem)
    have "nested_depth (depth t) h b"
    proof (rule PDict.IH [of "(k, t)" t "snd kv" b])
      show "(k, t) \<in> set d" by (rule mem)
      show "t \<in> Basic_BNFs.snds (k, t)" by simp
      show "reads_as A h (snd kv) t" by (rule r)
      show "dict_ref h (snd kv) = Some b" by (rule Some)
    qed
    moreover have "depth t \<le> ?m"
      by (rule depth_value [OF mem])
    ultimately show ?thesis
      using Some by (simp add: nested_depth_mono)
  qed
  with ob show ?case by simp
qed (auto simp: dict_ref_def split: hval.splits option.splits hobj.splits)

lemma length_store_item: "length (store_item h r k v) = length h"
  by (simp add: store_item_def split: option.splits hobj.splits)

lemma nth_store_item: "c \<noteq> r \<Longrightarrow> store_item h r k v ! c = h ! c"
  by (simp add: store_item_def split: option.splits hobj.splits)

lemma unchangedI:
  "length h \<le> length h' \<Longrightarrow> (\<And>c. c < length h \<Longrightarrow> h' ! c = h ! c) \<Longrightarrow> unchanged h h'"
  unfolding unchanged_def by (auto intro: nth_equalityI)

lemma sorted_dict_heap_frame:
  "sorted_dict_heap n h a = Some (Inr (r, h')) \<Longrightarrow>
     unchanged h h' \<and> length h \<le> r \<and> r < length h'"
  and sorted_dict_loop_frame:
  "sorted_dict_loop n xs res h = Some (Inr (r, h')) \<Longrightarrow> res < length h \<Longrightarrow>
     r = res \<and> length h \<le> length h' \<and> (\<forall>c < length h. c \<noteq> res \<longrightarrow> h' ! c = h ! c)"
proof (induction n h a and n xs res h arbitrary: r h' and r h'
       rule: sorted_dict_heap_sorted_dict_loop.induct)
  case (1 h a)
  then show ?case by simp
next
  case (2 n h a)
  from "2.prems" obtain items where ob: "obj_at h a = Some (HDict items)"
    and run: "sorted_dict_loop n (sort_key fst items) (length h) (h @ [HDict []]) = Some (Inr (r, h'))"
    by (auto split: option.splits hobj.splits)
  from "2.IH" [OF ob refl run] have r: "r = length h" and len: "Suc (length h) \<le> length h'"
    and same: "\<forall>c < Suc (length h). c \<noteq> length h \<longrightarrow> h' ! c = (h @ [HDict []]) ! c"
    by simp_all
  have "unchanged h h'"
  proof (rule unchangedI)
    show "length h \<le> length h'" using len by simp
    fix c assume "c < length h"
    with same show "h' ! c = h ! c" by (simp add: nth_append)
  qed
  with r len show ?case by simp
next
  case (3 n res h)
  then show ?case by simp
next
  case (4 n k v rest res h)
  show ?case
  proof (cases "dict_ref h v")
    case None
    with "4.prems" have run: "sorted_dict_loop n rest res (store_item h res k v) = Some (Inr (r, h'))"
      by simp
    from "4.IH"(1) [OF None run] "4.prems"(2)
    show ?thesis by (simp add: length_store_item nth_store_item)
  next
    case (Some b)
    with "4.prems" obtain b' h2 where call: "sorted_dict_heap n h b = Some (Inr (b', h2))"
      and run: "sorted_dict_loop n rest res (store_item h2 res k (HRef b')) = Some (Inr (r, h'))"
      by (auto split: option.splits sum.splits)
    from "4.IH"(2) [OF Some call] have un: "unchanged h h2" by simp
    then have len: "length h \<le> length h2" by (simp add: unchanged_def)
    from "4.IH"(3) [OF Some call refl refl run] "4.prems"(2) len
    have "r = res" and "length h2 \<le> length h'"
      and "\<forall>c < length h2. c \<noteq> res \<longrightarrow> h' ! c = h2 ! c"
      by (simp_all add: length_store_item nth_store_item)
    with len un show ?thesis
      by (auto simp: unchanged_nth)
  qed
qed

lemma items_transfer:
  assumes "list_all2 (\<lambda>kv kt. fst kv = fst kt \<and> reads_as A h (snd kv) (snd kt)) xs ys"
    and "A \<subseteq> B"
    and "\<And>c. c \<in> A \<Longrightarrow> c < length h \<Longrightarrow> obj_at h' c = obj_at h c"
  shows "list_all2 (\<lambda>kv kt. fst kv = fst kt \<and> reads_as B h' (snd kv) (snd kt)) xs ys"
  using assms(1)
proof (rule list.rel_mono_strong)
  fix x y assume "fst x = fst y \<and> reads_as A h (snd x) (snd y)"
  then show "fst x = fst y \<and> reads_as B h' (snd x) (snd y)"
    using reads_as_transfer [OF _ assms(2,3)] by blast
qed

lemma obj_at_store_item:
  "obj_at h res = Some (HDict acc) \<Longrightarrow>
   obj_at (store_item h res k v) c =
     (if c = res then Some (HDict (dict_set acc k v)) else obj_at h c)"
  by (auto simp: store_item_def obj_at_def split: if_splits)

lemma sorted_dict_loop_reads:
  assumes IH: "\<And>h b d A r h'. sorted_dict_heap n h b = Some (Inr (r, h')) \<Longrightarrow>
                 reads_as A h (HRef b) (PDict d) \<Longrightarrow> A \<subseteq> {..<length h} \<Longrightarrow>
                 reads_as (A \<union> {length h..}) h' (HRef r) (PDict (sorted_dict d))"
    and A: "A \<subseteq> {..<res}"
  shows "sorted_dict_loop n xs res h = Some (Inr (r, h')) \<Longrightarrow>
         obj_at h res = Some (HDict acc) \<Longrightarrow>
         list_all2 (\<lambda>kv kt. fst kv = fst kt \<and> reads_as (A \<union> {Suc res..}) h (snd kv) (snd kt))
           acc acct \<Longrightarrow>
         list_all2 (\<lambda>kv kt. fst kv = fst kt \<and> reads_as A h (snd kv) (snd kt)) xs ts \<Longrightarrow>
         \<exists>acc'. obj_at h' res = Some (HDict acc') \<and>
           list_all2 (\<lambda>kv kt. fst kv = fst kt \<and> reads_as (A \<union> {Suc res..}) h' (snd kv) (snd kt))
             acc' (fold (\<lambda>(k, v) result. dict_set result k (canon v)) ts acct)"
proof (induction xs arbitrary: h acc acct ts)
  case Nil
  then show ?case by auto
next
  case (Cons x xs)
  let ?S = "A \<union> {Suc res..}"
  from Cons.prems(4) obtain y ts' where ts: "ts = y # ts'"
    and xy: "fst x = fst y" "reads_as A h (snd x) (snd y)"
    and rest: "list_all2 (\<lambda>kv kt. fst kv = fst kt \<and> reads_as A h (snd kv) (snd kt)) xs ts'"
    by (auto simp: list_all2_Cons1)
  obtain k v where x: "x = (k, v)" by (cases x)
  obtain t where y: "y = (k, t)" using xy(1) x by (cases y) simp
  from xy x y have vt: "reads_as A h v t" by simp
  from Cons.prems(2) have res: "res < length h"
    by (simp add: obj_at_def split: if_splits)
  from A have notin: "res \<notin> ?S" by auto
  have AS: "A \<subseteq> ?S" by auto
  show ?case
  proof (cases "dict_ref h v")
    case None
    let ?h3 = "store_item h res k v"
    from None reads_as_dict_ref [OF vt] have "canon t = t"
      by (cases t) (simp_all add: canon_def)
    from Cons.prems(1) None
    have run: "sorted_dict_loop n xs res ?h3 = Some (Inr (r, h'))"
      by (simp add: x)
    have same: "obj_at ?h3 c = obj_at h c" if "c \<in> ?S" for c
      using that notin by (auto simp: obj_at_store_item [OF Cons.prems(2)])
    have ob3: "obj_at ?h3 res = Some (HDict (dict_set acc k v))"
      by (simp add: obj_at_store_item [OF Cons.prems(2)])
    have "reads_as ?S ?h3 v t"
      by (rule reads_as_transfer [OF vt AS]) (simp add: same)
    then have acc3: "list_all2 (\<lambda>kv kt. fst kv = fst kt \<and> reads_as ?S ?h3 (snd kv) (snd kt))
                  (dict_set acc k v) (dict_set acct k t)"
      using items_transfer [OF Cons.prems(3) subset_refl, of ?h3] same
      by (intro rel_dict_set) simp_all
    have rest3: "list_all2 (\<lambda>kv kt. fst kv = fst kt \<and> reads_as A ?h3 (snd kv) (snd kt)) xs ts'"
      by (rule items_transfer [OF rest subset_refl]) (simp add: same)
    from Cons.IH [OF run ob3 acc3 rest3] show ?thesis
      by (simp add: ts y \<open>canon t = t\<close>)
  next
    case (Some b)
    with reads_as_dict_ref [OF vt] obtain d where t: "t = PDict d"
      by auto
    from Some have v: "v = HRef b" using dict_ref_Some by blast
    from Cons.prems(1) Some obtain b' h2 where call: "sorted_dict_heap n h b = Some (Inr (b', h2))"
      and run: "sorted_dict_loop n xs res (store_item h2 res k (HRef b')) = Some (Inr (r, h'))"
      by (auto simp: x split: option.splits sum.splits)
    let ?h3 = "store_item h2 res k (HRef b')"
    from sorted_dict_heap_frame [OF call] have un: "unchanged h h2" and new: "length h \<le> b'"
      by simp_all
    have same2: "obj_at h2 c = obj_at h c" if "c < length h" for c
      by (rule unchanged_obj_at [OF un that])
    with res Cons.prems(2) have ob2: "obj_at h2 res = Some (HDict acc)" by simp
    have same3: "obj_at ?h3 c = obj_at h2 c" if "c \<in> ?S" for c
      using that notin by (auto simp: obj_at_store_item [OF ob2])
    have ob3: "obj_at ?h3 res = Some (HDict (dict_set acc k (HRef b')))"
      by (simp add: obj_at_store_item [OF ob2])
    from A res have Ah: "A \<subseteq> {..<length h}" by auto
    from IH [OF call vt [unfolded v t] Ah]
    have new_reads: "reads_as (A \<union> {length h..}) h2 (HRef b') (PDict (sorted_dict d))" .
    have sub: "A \<union> {length h..} \<subseteq> ?S"
      using res by auto
    have "reads_as ?S ?h3 (HRef b') (PDict (sorted_dict d))"
      by (rule reads_as_transfer [OF new_reads sub]) (use sub in \<open>auto simp: same3\<close>)
    moreover have "list_all2 (\<lambda>kv kt. fst kv = fst kt \<and> reads_as ?S ?h3 (snd kv) (snd kt)) acc acct"
      by (rule items_transfer [OF Cons.prems(3) subset_refl]) (simp add: same2 same3)
    ultimately have acc3: "list_all2 (\<lambda>kv kt. fst kv = fst kt \<and> reads_as ?S ?h3 (snd kv) (snd kt))
                  (dict_set acc k (HRef b')) (dict_set acct k (PDict (sorted_dict d)))"
      by (intro rel_dict_set) simp_all
    have rest3: "list_all2 (\<lambda>kv kt. fst kv = fst kt \<and> reads_as A ?h3 (snd kv) (snd kt)) xs ts'"
      by (rule items_transfer [OF rest subset_refl]) (use AS in \<open>auto simp: same2 same3\<close>)
    from Cons.IH [OF run ob3 acc3 rest3] show ?thesis
      by (simp add: ts y t canon_def)
  qed
qed

lemma sorted_dict_heap_reads:
  "sorted_dict_heap n h a = Some (Inr (r, h')) \<Longrightarrow>
   reads_as A h (HRef a) (PDict d) \<Longrightarrow> A \<subseteq> {..<length h} \<Longrightarrow>
   reads_as (A \<union> {length h..}) h' (HRef r) (PDict (sorted_dict d))"
proof (induction n arbitrary: h a r h' A d)
  case 0
  then show ?case by simp
next
  case (Suc n)
  from Suc.prems(2) obtain items where ob: "obj_at h a = Some (HDict items)"
    and items: "list_all2 (\<lambda>kv kt. fst kv = fst kt \<and> reads_as A h (snd kv) (snd kt)) items d"
    by (auto split: option.splits hobj.splits)
  let ?h1 = "h @ [HDict []]"
  from Suc.prems(1) ob
  have run: "sorted_dict_loop n (sort_key fst items) (length h) ?h1 = Some (Inr (r, h'))"
    by simp
  from sorted_dict_loop_frame [OF run] have r: "r = length h" by simp
  have ob1: "obj_at ?h1 (length h) = Some (HDict [])"
    by (simp add: obj_at_def)
  have same: "obj_at ?h1 c = obj_at h c" if "c < length h" for c
    using that by (simp add: obj_at_def nth_append)
  have "list_all2 (\<lambda>kv kt. fst kv = fst kt \<and> reads_as A h (snd kv) (snd kt))
          (sort_key fst items) (sort_key fst d)"
  proof (rule rel_sort_key [OF _ items])
    fix x :: "string \<times> hval" and y :: "string \<times> pyval"
    assume "fst x = fst y \<and> reads_as A h (snd x) (snd y)"
    then show "fst x = fst y" by simp
  qed
  then have sorted: "list_all2 (\<lambda>kv kt. fst kv = fst kt \<and> reads_as A ?h1 (snd kv) (snd kt))
          (sort_key fst items) (sort_key fst d)"
    by (rule items_transfer [OF _ subset_refl]) (simp add: same)
  have empty: "list_all2 (\<lambda>kv kt. fst kv = fst kt \<and>
                 reads_as (A \<union> {Suc (length h)..}) ?h1 (snd kv) (snd kt)) [] []"
    by simp
  have "\<exists>acc'. obj_at h' (length h) = Some (HDict acc') \<and>
          list_all2 (\<lambda>kv kt. fst kv = fst kt \<and>
                 reads_as (A \<union> {Suc (length h)..}) h' (snd kv) (snd kt)) acc'
                 (fold (\<lambda>(k, v) result. dict_set result k (canon v)) (sort_key fst d) [])"
  proof (rule sorted_dict_loop_reads [OF _ Suc.prems(3) run ob1 empty sorted])
    fix h b d A r h'
    assume "sorted_dict_heap n h b = Some (Inr (r, h'))"
      and "reads_as A h (HRef b) (PDict d)" and "A \<subseteq> {..<length h}"
    then show "reads_as (A \<union> {length h..}) h' (HRef r) (PDict (sorted_dict d))"
      by (rule Suc.IH)
  qed
  then obtain acc' where ob': "obj_at h' (length h) = Some (HDict acc')"
    and acc': "list_all2 (\<lambda>kv kt. fst kv = fst kt \<and>
                 reads_as (A \<union> {Suc (length h)..}) h' (snd kv) (snd kt)) acc'
                 (fold (\<lambda>(k, v) result. dict_set result k (canon v)) (sort_key fst d) [])"
    by blast
  have "fold (\<lambda>(k, v) result. dict_set result k (canon v)) (sort_key fst d) [] = sorted_dict d"
    by (subst sorted_dict.simps) (simp add: canon_def [abs_def])
  with acc' have a2: "list_all2 (\<lambda>kv kt. fst kv = fst kt \<and>
                 reads_as (A \<union> {Suc (length h)..}) h' (snd kv) (snd kt)) acc' (sorted_dict d)"
    by simp
  have sub: "A \<union> {Suc (length h)..} \<subseteq> A \<union> {length h..}"
    by auto
  have "list_all2 (\<lambda>kv kt. fst kv = fst kt \<and>
                 reads_as (A \<union> {length h..}) h' (snd kv) (snd kt)) acc' (sorted_dict d)"
    by (rule items_transfer [OF a2 sub refl])
  with ob' show ?case by (simp add: r)
qed

text \<open>
  C10. \<open>sorted_dict\<close> never mutates its argument, and what it returns is freshly built.
  Let the heap hold no dangling reference and let the Document \<open>d\<close> be read at address
  \<open>a\<close>. Then the run of \<open>sorted_dict\<close> on \<open>a\<close> returns; no object that existed before
  the call is changed, and the argument still reads as \<open>d\<close>; the returned dict is a new
  object, which reads as \<open>sorted_dict d\<close>; and every object built is a dict whose values
  are new dicts, scalars, or references to lists that existed before, which are shared.
\<close>

theorem sorted_dict_heap_document:
  assumes "closed_heap h" and "reads_as {..<length h} h (HRef a) (PDict d)"
  shows "returns_sorted_copy h a d (sorted_dict_heap (depth (PDict d)) h a)"
proof -
  from assms(2) have "dict_ref h (HRef a) = Some a"
    by (auto simp: dict_ref_def split: option.splits hobj.splits)
  from reads_as_nested_depth [OF assms(2) this]
  have "nested_depth (depth (PDict d)) h a" .
  from sorted_dict_heap_fresh [OF assms(1) this]
  obtain r h' where run: "sorted_dict_heap (depth (PDict d)) h a = Some (Inr (r, h'))"
    and un: "unchanged h h'" and new: "length h \<le> r" and bf: "built_fresh h h'"
    by (auto simp: returns_fresh_def split: option.splits sum.splits)
  have "reads_as {..<length h} h' (HRef a) (PDict d)"
    by (rule reads_as_transfer [OF assms(2) subset_refl]) (simp add: unchanged_obj_at [OF un])
  moreover from sorted_dict_heap_reads [OF run assms(2) subset_refl]
  have "reads_as UNIV h' (HRef r) (PDict (sorted_dict d))"
    by (rule reads_as_transfer [OF _ subset_UNIV refl])
  ultimately show ?thesis
    using run un new bf by (simp add: returns_sorted_copy_def)
qed

theorem sorted_dict_heap_document_witness:
  "closed_heap example_heap \<and>
   reads_as {..<length example_heap} example_heap (HRef 0)
     (PDict [(''b'', PDict [(''z'', PNone), (''y'', PStr ''s'')]),
             (''a'', PList [PDict [(''z'', PNone), (''y'', PStr ''s'')], PInt 2]),
             (''c'', PInt 1)]) \<and>
   returns_sorted_copy example_heap 0
     [(''b'', PDict [(''z'', PNone), (''y'', PStr ''s'')]),
      (''a'', PList [PDict [(''z'', PNone), (''y'', PStr ''s'')], PInt 2]),
      (''c'', PInt 1)]
     (sorted_dict_heap
        (depth (PDict [(''b'', PDict [(''z'', PNone), (''y'', PStr ''s'')]),
                       (''a'', PList [PDict [(''z'', PNone), (''y'', PStr ''s'')], PInt 2]),
                       (''c'', PInt 1)]))
        example_heap 0)"
  using sorted_dict_heap_document
          [of example_heap 0
              "[(''b'', PDict [(''z'', PNone), (''y'', PStr ''s'')]),
                (''a'', PList [PDict [(''z'', PNone), (''y'', PStr ''s'')], PInt 2]),
                (''c'', PInt 1)]"]
  by (simp add: example_heap_def closed_heap_def valid_val_def obj_at_def)

end
